theory Spec2Isabelle
  imports Complex_Main "HOL-Library.Multiset"
begin

section \<open>Text\<close>

text \<open>
  A Python \<open>str\<close> is modelled as a \<open>string\<close>: each \<open>char\<close> stands for the code point of
  the same number, so the model covers the strings whose code points lie below 256.
  The character classes below are those of Python 3 on that range: \<open>str.isalnum\<close>,
  \<open>str.isspace\<close>, \<open>str.lower\<close>, and the word characters of the \<open>re\<close> module
  (alphanumeric or underscore).
\<close>

definition isalnum :: "char \<Rightarrow> bool" where
  "isalnum c = (let n = (of_char c :: nat) in
     (48 \<le> n \<and> n \<le> 57) \<or> (65 \<le> n \<and> n \<le> 90) \<or> (97 \<le> n \<and> n \<le> 122) \<or>
     n = 170 \<or> n = 178 \<or> n = 179 \<or> n = 181 \<or> n = 185 \<or> n = 186 \<or>
     (188 \<le> n \<and> n \<le> 190) \<or> (192 \<le> n \<and> n \<le> 214) \<or> (216 \<le> n \<and> n \<le> 246) \<or>
     248 \<le> n)"

definition is_word_char :: "char \<Rightarrow> bool" where
  "is_word_char c = (isalnum c \<or> c = CHR ''_'')"

definition isspace :: "char \<Rightarrow> bool" where
  "isspace c = (let n = (of_char c :: nat) in
     (9 \<le> n \<and> n \<le> 13) \<or> (28 \<le> n \<and> n \<le> 32) \<or> n = 133 \<or> n = 160)"

definition py_lower :: "char \<Rightarrow> char" where
  "py_lower c = (let n = (of_char c :: nat) in
     if (65 \<le> n \<and> n \<le> 90) \<or> (192 \<le> n \<and> n \<le> 214) \<or> (216 \<le> n \<and> n \<le> 222)
     then char_of (n + 32) else c)"

definition lower :: "string \<Rightarrow> string" where
  "lower s = map py_lower s"

text \<open>
  \<open>str.split()\<close> with no argument cuts a text at runs of whitespace and drops the empty
  pieces; \<open>str.strip()\<close> removes the whitespace at both ends. Both take the whitespace
  test as an argument, so that they serve texts of either character type below.
\<close>

fun split_words :: "('c \<Rightarrow> bool) \<Rightarrow> 'c list \<Rightarrow> 'c list \<Rightarrow> 'c list list" where
  "split_words sp cur [] = (if cur = [] then [] else [cur])"
| "split_words sp cur (c # cs) =
     (if sp c then (if cur = [] then [] else [cur]) @ split_words sp [] cs
      else split_words sp (cur @ [c]) cs)"

definition py_split :: "('c \<Rightarrow> bool) \<Rightarrow> 'c list \<Rightarrow> 'c list list" where
  "py_split sp s = split_words sp [] s"

definition py_strip :: "('c \<Rightarrow> bool) \<Rightarrow> 'c list \<Rightarrow> 'c list" where
  "py_strip sp s = rev (dropWhile sp (rev (dropWhile sp s)))"

text \<open>A word as \<open>split\<close> yields it: not empty, and free of whitespace.\<close>

definition clean_word :: "('c \<Rightarrow> bool) \<Rightarrow> 'c list \<Rightarrow> bool" where
  "clean_word sp w = (w \<noteq> [] \<and> list_all (\<lambda>c. \<not> sp c) w)"

section \<open>Values and errors\<close>

text \<open>
  The exceptions of the source that a theorem below needs to tell apart, and the values
  \<open>json.loads\<close> yields. A number is kept by its value, an object by the pairs of its
  \<open>dict\<close>, one pair a key. \<open>truthy\<close> is the test an \<open>if\<close> makes on such a value.
\<close>

datatype error = IndexError | AttributeError | TypeError | OSError

datatype json =
    JNull
  | JBool bool
  | JNum rat
  | JStr string
  | JArr "json list"
  | JObj "(string \<times> json) list"

fun truthy :: "json \<Rightarrow> bool" where
  "truthy JNull = False"
| "truthy (JBool b) = b"
| "truthy (JNum q) = (q \<noteq> 0)"
| "truthy (JStr s) = (s \<noteq> [])"
| "truthy (JArr xs) = (xs \<noteq> [])"
| "truthy (JObj kvs) = (kvs \<noteq> [])"

section \<open>Text Sanitizer\<close>

text \<open>
  Every pattern of the table in \<open>sanitize_text\<close> has the shape \<open>\bword\b\<close> and is applied
  with \<open>re.IGNORECASE\<close>; a rule is kept as the pair of that word and its replacement.
  \<open>word_boundary\<close> is the test \<open>\b\<close> makes between two neighbouring positions (\<open>None\<close>
  is an end of the string), \<open>match_literal\<close> the case-insensitive match of the word's
  letters, and \<open>match_at\<close> the whole pattern tried at one position.
\<close>

fun is_word_at :: "char option \<Rightarrow> bool" where
  "is_word_at None = False"
| "is_word_at (Some c) = is_word_char c"

definition word_boundary :: "char option \<Rightarrow> char option \<Rightarrow> bool" where
  "word_boundary a b = (is_word_at a \<noteq> is_word_at b)"

fun match_literal :: "string \<Rightarrow> string \<Rightarrow> bool" where
  "match_literal [] s = True"
| "match_literal (p # ps) [] = False"
| "match_literal (p # ps) (c # cs) = (py_lower c = py_lower p \<and> match_literal ps cs)"

fun first_char :: "string \<Rightarrow> char option" where
  "first_char [] = None"
| "first_char (c # cs) = Some c"

definition match_at :: "string \<Rightarrow> char option \<Rightarrow> string \<Rightarrow> bool" where
  "match_at w prev s =
     (word_boundary prev (first_char s) \<and> match_literal w s \<and>
      word_boundary (Some (last (take (length w) s))) (first_char (drop (length w) s)))"

text \<open>
  \<open>re.sub\<close> scans the text from the left: where the pattern matches, the replacement is
  emitted and the scan resumes after the match; elsewhere the character is copied.
  \<open>prev\<close> is the character of the original text before the current position. The
  equations cover the non-empty words, which is what the table holds.
\<close>

fun re_sub_from :: "string \<Rightarrow> string \<Rightarrow> char option \<Rightarrow> string \<Rightarrow> string" where
  "re_sub_from (p # ps) r prev [] = []"
| "re_sub_from (p # ps) r prev (c # cs) =
     (if match_at (p # ps) prev (c # cs)
      then r @ re_sub_from (p # ps) r (Some (last (take (length (p # ps)) (c # cs))))
                 (drop (length (p # ps)) (c # cs))
      else c # re_sub_from (p # ps) r (Some c) cs)"

definition re_sub :: "string \<Rightarrow> string \<Rightarrow> string \<Rightarrow> string" where
  "re_sub w r s = re_sub_from w r None s"

definition replacements :: "(string \<times> string) list" where
  "replacements =
    [(''kill'', ''Ki*ll''), (''kills'', ''Ki*lls''), (''killed'', ''Kil*led''),
     (''murder'', ''Mu*rder''), (''murders'', ''Mu*rders''), (''murdered'', ''Mur*dered''),
     (''assassinate'', ''As*sa*ssinate''), (''assassinates'', ''As*sa*ssinates''),
     (''assassinated'', ''As*sa*ssinated''),
     (''stab'', ''St*ab''), (''stabs'', ''St*abs''), (''stabbed'', ''St*abbed''),
     (''slaughter'', ''Sl*aughter''), (''slaughters'', ''Sl*aughters''),
     (''slaughtered'', ''Sl*aughtered''),
     (''rape'', ''Ra*pe''), (''rapes'', ''Ra*pes''), (''raped'', ''Ra*ped''),
     (''gaza'', ''Ga*za''), (''israel'', ''Isr*ael''), (''palestine'', ''Pa*le*stine'')]"

text \<open>The loop over the table: each rule rewrites the result of the rules before it.\<close>

definition apply_rules :: "(string \<times> string) list \<Rightarrow> string \<Rightarrow> string" where
  "apply_rules rules s = foldl (\<lambda>acc (w, r). re_sub w r acc) s rules"

definition sanitize_text :: "string \<Rightarrow> string" where
  "sanitize_text s = (if s = [] then s else apply_rules replacements s)"

text \<open>
  Vocabulary of the statements about the sanitizer: \<open>ci_eq t w\<close> says that \<open>t\<close> is the
  word \<open>w\<close> up to letter case; a text starts (ends) outside a word when it is empty or
  its first (last) character is not a word character; a rule table is well formed when
  its words are non-empty and made of word characters.
\<close>

definition ci_eq :: "string \<Rightarrow> string \<Rightarrow> bool" where
  "ci_eq t w = (map py_lower t = map py_lower w)"

definition starts_outside_word :: "string \<Rightarrow> bool" where
  "starts_outside_word s = (s = [] \<or> \<not> is_word_char (hd s))"

definition ends_outside_word :: "string \<Rightarrow> bool" where
  "ends_outside_word s = (s = [] \<or> \<not> is_word_char (last s))"

definition well_formed_rules :: "(string \<times> string) list \<Rightarrow> bool" where
  "well_formed_rules rules = list_all (\<lambda>(w, r). list_all is_word_char w \<and> w \<noteq> []) rules"

section \<open>Card Compositor: the title's word-wrap\<close>

text \<open>
  The title drawn on the card may hold any code point, and the marker appended to a cut
  title holds one beyond 255, so the text of the word-wrap is a list of code points.
  \<open>isspace_cp\<close> is \<open>str.isspace\<close> on all of them. The marker is the three-character
  literal of the source file (U+201A, U+00C4, U+00B6). The font enters through
  \<open>wd\<close>, the width \<open>bbox[2] - bbox[0]\<close> of \<open>draw.textbbox\<close> for a text, and the column
  through \<open>maxw\<close>, the value of \<open>max_text_width\<close>.
\<close>

type_synonym ustring = "nat list"

definition ustr :: "string \<Rightarrow> ustring" where
  "ustr s = map of_char s"

definition isspace_cp :: "nat \<Rightarrow> bool" where
  "isspace_cp n =
     ((9 \<le> n \<and> n \<le> 13) \<or> (28 \<le> n \<and> n \<le> 32) \<or> n = 133 \<or> n = 160 \<or> n = 5760 \<or>
      (8192 \<le> n \<and> n \<le> 8202) \<or> n = 8232 \<or> n = 8233 \<or> n = 8239 \<or> n = 8287 \<or> n = 12288)"

definition ellipsis :: ustring where
  "ellipsis = [8218, 196, 182]"

definition max_lines :: nat where
  "max_lines = 3"

text \<open>The inner loop on a single long word: \<open>hard = hard[:-1]\<close> while it is too wide.\<close>

function trim_to_fit :: "(ustring \<Rightarrow> int) \<Rightarrow> int \<Rightarrow> ustring \<Rightarrow> ustring" where
  "trim_to_fit wd maxw hard =
     (if hard \<noteq> [] \<and> wd hard > maxw then trim_to_fit wd maxw (butlast hard) else hard)"
  by pat_completeness auto
termination
  by (relation "measure (\<lambda>(wd, maxw, hard). length hard)") auto

text \<open>The line appended for it: \<open>hard if hard else word[:1]\<close>.\<close>

definition hard_cut :: "(ustring \<Rightarrow> int) \<Rightarrow> int \<Rightarrow> ustring \<Rightarrow> ustring" where
  "hard_cut wd maxw word =
     (let hard = trim_to_fit wd maxw word in if hard \<noteq> [] then hard else take 1 word)"

definition test_line :: "ustring \<Rightarrow> ustring \<Rightarrow> ustring" where
  "test_line cur word = py_strip isspace_cp (cur @ [32] @ word)"

text \<open>
  The main loop, on the words not yet placed (\<open>words[word_index:]\<close>), the lines so far
  and the current line. It returns all three as the loop leaves them.
\<close>

function wrap_loop ::
  "(ustring \<Rightarrow> int) \<Rightarrow> int \<Rightarrow> ustring list \<Rightarrow> ustring list \<Rightarrow> ustring \<Rightarrow>
   ustring list \<times> ustring list \<times> ustring" where
  "wrap_loop wd maxw ws lines cur =
     (case ws of
        [] \<Rightarrow> (ws, lines, cur)
      | word # rest \<Rightarrow>
          if \<not> length lines < max_lines then (ws, lines, cur)
          else
            if wd (test_line cur word) \<le> maxw then wrap_loop wd maxw rest lines (test_line cur word)
            else if cur \<noteq> [] then wrap_loop wd maxw ws (lines @ [cur]) []
            else wrap_loop wd maxw rest (lines @ [hard_cut wd maxw word]) [])"
  by pat_completeness auto
termination
  by (relation "measure (\<lambda>(wd, maxw, ws, lines, cur). 2 * length ws + (if cur = [] then 0 else 1))")
     auto

text \<open>The loop that puts the marker on the last line when words are left over.\<close>

function ellipsize :: "(ustring \<Rightarrow> int) \<Rightarrow> int \<Rightarrow> ustring \<Rightarrow> ustring" where
  "ellipsize wd maxw l =
     (if wd (l @ ellipsis) \<le> maxw \<or> length l = 0
      then (if length l > 0 then l @ ellipsis else ellipsis)
      else ellipsize wd maxw (butlast l))"
  by pat_completeness auto
termination
  by (relation "measure (\<lambda>(wd, maxw, l). length l)") auto

text \<open>The lines of the title, as \<open>create_professional_news_card\<close> draws them.\<close>

definition title_lines :: "(ustring \<Rightarrow> int) \<Rightarrow> int \<Rightarrow> ustring \<Rightarrow> ustring list" where
  "title_lines wd maxw title =
     (case wrap_loop wd maxw (py_split isspace_cp title) [] [] of
        (rest, lines, cur) \<Rightarrow>
          let lines1 = (if cur \<noteq> [] \<and> length lines < max_lines then lines @ [cur] else lines)
          in if rest \<noteq> [] \<and> lines1 \<noteq> []
             then butlast lines1 @ [ellipsize wd maxw (last lines1)]
             else lines1)"

text \<open>
  Vocabulary of the statements: the words joined by single spaces, and the metric of a
  fixed-pitch font of \<open>k\<close> units a character, used for concrete inputs.
\<close>

definition join_words :: "ustring list \<Rightarrow> ustring" where
  "join_words ws = (case ws of [] \<Rightarrow> [] | w # rest \<Rightarrow> foldl (\<lambda>acc x. acc @ [32] @ x) w rest)"

definition fixed_pitch :: "int \<Rightarrow> ustring \<Rightarrow> int" where
  "fixed_pitch k s = k * int (length s)"

section \<open>Image Validator and Image Candidate Resolver\<close>

text \<open>\<open>k in s\<close> on two texts, and \<open>sep.join(xs)\<close>.\<close>

fun is_substring :: "string \<Rightarrow> string \<Rightarrow> bool" where
  "is_substring k [] = (k = [])"
| "is_substring k (c # cs) = (take (length k) (c # cs) = k \<or> is_substring k cs)"

fun join :: "string \<Rightarrow> string list \<Rightarrow> string" where
  "join sep [] = []"
| "join sep [x] = x"
| "join sep (x # y # ys) = x @ sep @ join sep (y # ys)"

text \<open>
  What the resolver sees of the outside. A response of \<open>requests.get\<close> is its status and
  its body. Of an element of the parsed page the code reads the name, the attributes with
  a text value, and the \<open>class\<close> attribute, which the parser keeps as a list of names; of
  an \<open><img>\<close> also its ancestors, nearest first, so that \<open>img.parent\<close> is the first of
  them. Of a page it reads the \<open><meta>\<close> elements, the \<open>application/ld+json\<close> scripts
  (each as \<open>json.loads\<close> of its text gives it, \<open>None\<close> when that raises) and the
  \<open><img>\<close> elements, all in document order.

  The world is what the library calls answer: \<open>fetch\<close> is \<open>requests.get\<close> (\<open>None\<close>: it
  raises), \<open>decode\<close> the size \<open>Image.open\<close> reports for a body (\<open>None\<close>: it raises),
  \<open>render\<close> the page the browser session parses for a URL (\<open>None\<close>: the session
  raises), and \<open>urljoin\<close> the function of \<open>urllib.parse\<close> (\<open>None\<close>: it raises).
\<close>

type_synonym bytes = string

record response =
  status_code :: nat
  content :: bytes

record tag =
  tag_name :: string
  attrs :: "(string \<times> string) list"
  classes :: "string list option"

record img_tag = tag +
  ancestors :: "tag list"

record page =
  metas :: "tag list"
  ld_json :: "json option list"
  imgs :: "img_tag list"

record world =
  fetch :: "string \<Rightarrow> response option"
  decode :: "bytes \<Rightarrow> (nat \<times> nat) option"
  render :: "string \<Rightarrow> page option"
  urljoin :: "string \<Rightarrow> string \<Rightarrow> string option"

definition get_attr :: "'a tag_scheme \<Rightarrow> string \<Rightarrow> string option" where
  "get_attr t k = map_of (attrs t) k"

definition download_and_validate_image :: "world \<Rightarrow> string \<Rightarrow> bytes option" where
  "download_and_validate_image w img_url =
     (case fetch w img_url of
        None \<Rightarrow> None
      | Some resp \<Rightarrow>
          if status_code resp \<noteq> 200 then None
          else (case decode w (content resp) of
                  None \<Rightarrow> None
                | Some (width_px, height_px) \<Rightarrow>
                    if width_px < 400 \<or> height_px < 250 then None else Some (content resp)))"

text \<open>A missing attribute is \<open>None\<close>; an empty one is as falsy as \<open>None\<close>.\<close>

definition make_absolute :: "world \<Rightarrow> string \<Rightarrow> string option \<Rightarrow> string option" where
  "make_absolute w base_url maybe_url =
     (case maybe_url of
        None \<Rightarrow> None
      | Some u \<Rightarrow> if u = [] then None
                  else (case urljoin w base_url u of Some r \<Rightarrow> Some r | None \<Rightarrow> Some u))"

definition banned_keywords :: "string list" where
  "banned_keywords = [''logo'', ''favicon'', ''sprite'', ''placeholder'', ''default'', ''avatar'']"

definition is_probably_logo :: "string \<Rightarrow> bool" where
  "is_probably_logo url_str =
     (if url_str = [] then True else list_ex (\<lambda>k. is_substring k (lower url_str)) banned_keywords)"

text \<open>
  The guard every stage puts before the validator:
  \<open>if url_abs and not is_probably_logo(url_abs): img = download_and_validate_image(url_abs)\<close>.
\<close>

definition try_url :: "world \<Rightarrow> string option \<Rightarrow> bytes option" where
  "try_url w url_abs =
     (case url_abs of
        None \<Rightarrow> None
      | Some u \<Rightarrow> if u \<noteq> [] \<and> \<not> is_probably_logo u then download_and_validate_image w u else None)"

text \<open>Stage 1, the meta tags, tried in the order of \<open>meta_props\<close>.\<close>

definition meta_props :: "(string \<times> string) list" where
  "meta_props = [(''property'', ''og:image''), (''name'', ''twitter:image''),
                 (''property'', ''twitter:image''), (''itemprop'', ''image'')]"

definition find_meta :: "page \<Rightarrow> string \<times> string \<Rightarrow> tag option" where
  "find_meta pg p = find (\<lambda>t. get_attr t (fst p) = Some (snd p)) (metas pg)"

definition meta_url :: "world \<Rightarrow> string \<Rightarrow> page \<Rightarrow> string \<times> string \<Rightarrow> string option" where
  "meta_url w article_url pg p =
     (case find_meta pg p of
        None \<Rightarrow> None
      | Some el \<Rightarrow> make_absolute w article_url (get_attr el ''content''))"

fun first_image :: "('a \<Rightarrow> bytes option) \<Rightarrow> 'a list \<Rightarrow> bytes option" where
  "first_image f [] = None"
| "first_image f (x # xs) = (case f x of Some img \<Rightarrow> Some img | None \<Rightarrow> first_image f xs)"

definition meta_stage :: "world \<Rightarrow> string \<Rightarrow> page \<Rightarrow> bytes option" where
  "meta_stage w article_url pg =
     first_image (\<lambda>p. try_url w (meta_url w article_url pg p)) meta_props"

text \<open>
  Stage 2, JSON-LD. \<open>image_field\<close> is \<open>url_candidate\<close>. A candidate that is truthy and
  not a text comes back from \<open>make_absolute\<close> as it is (\<open>urljoin\<close> raises \<open>TypeError\<close>,
  which is caught there), and \<open>is_probably_logo\<close> then raises \<open>AttributeError\<close> on its
  \<open>.lower()\<close>; nothing catches that before the outer handler of the function.
\<close>

definition image_field :: "json \<Rightarrow> json option" where
  "image_field obj =
     (case obj of
        JObj kvs \<Rightarrow>
          (case map_of kvs ''image'' of
             Some (JStr s) \<Rightarrow> Some (JStr s)
           | Some (JArr (x # xs)) \<Rightarrow> Some x
           | Some (JObj kv2) \<Rightarrow> map_of kv2 ''url''
           | _ \<Rightarrow> None)
      | _ \<Rightarrow> None)"

definition try_candidate :: "world \<Rightarrow> string \<Rightarrow> json option \<Rightarrow> error + bytes option" where
  "try_candidate w article_url url_candidate =
     (case url_candidate of
        None \<Rightarrow> Inr None
      | Some v \<Rightarrow>
          if \<not> truthy v then Inr None
          else (case v of
                  JStr s \<Rightarrow> Inr (try_url w (make_absolute w article_url (Some s)))
                | _ \<Rightarrow> Inl AttributeError))"

fun first_image_or_error :: "('a \<Rightarrow> error + bytes option) \<Rightarrow> 'a list \<Rightarrow> error + bytes option" where
  "first_image_or_error f [] = Inr None"
| "first_image_or_error f (x # xs) =
     (case f x of
        Inl e \<Rightarrow> Inl e
      | Inr (Some img) \<Rightarrow> Inr (Some img)
      | Inr None \<Rightarrow> first_image_or_error f xs)"

definition ld_candidates :: "json option \<Rightarrow> json list" where
  "ld_candidates script =
     (case script of
        Some (JObj kvs) \<Rightarrow> [JObj kvs]
      | Some (JArr xs) \<Rightarrow> xs
      | _ \<Rightarrow> [])"

definition jsonld_stage :: "world \<Rightarrow> string \<Rightarrow> page \<Rightarrow> error + bytes option" where
  "jsonld_stage w article_url pg =
     first_image_or_error (\<lambda>obj. try_candidate w article_url (image_field obj))
       (concat (map ld_candidates (ld_json pg)))"

text \<open>
  Stage 3, the images of the page. \<open>py_or\<close> is \<open>a or b\<close> on attribute values;
  \<open>first_srcset_url\<close> is \<open>srcset.split(",")[0].split()[0]\<close>, which raises \<open>IndexError\<close>
  when nothing stands before the first comma. \<open>img_source\<close> is the value of \<open>src\<close> after
  the \<open>srcset\<close> branch (\<open>None\<close>: the element is skipped).
\<close>

definition py_or :: "string option \<Rightarrow> string option \<Rightarrow> string option" where
  "py_or a b = (case a of Some s \<Rightarrow> if s \<noteq> [] then Some s else b | None \<Rightarrow> b)"

definition first_srcset_url :: "string \<Rightarrow> error + string" where
  "first_srcset_url srcset =
     (case py_split isspace (takeWhile (\<lambda>c. c \<noteq> CHR '','') srcset) of
        [] \<Rightarrow> Inl IndexError
      | u # us \<Rightarrow> Inr u)"

definition img_source :: "img_tag \<Rightarrow> error + string option" where
  "img_source img =
     (case py_or (get_attr img ''src'') (py_or (get_attr img ''data-src'')
             (py_or (get_attr img ''data-original'') (get_attr img ''srcset''))) of
        None \<Rightarrow> Inr None
      | Some s \<Rightarrow> if s = [] then Inr None
          else (case get_attr img ''srcset'' of
                  None \<Rightarrow> Inr (Some s)
                | Some srcset \<Rightarrow>
                    if srcset \<noteq> []
                    then (case first_srcset_url srcset of Inl e \<Rightarrow> Inl e | Inr u \<Rightarrow> Inr (Some u))
                    else Inr (Some s)))"

definition content_keywords :: "string list" where
  "content_keywords = [''article'', ''entry'', ''content'', ''post'', ''news'']"

definition prominence_keywords :: "string list" where
  "prominence_keywords = [''featured'', ''main'', ''hero'', ''lead'']"

definition parent_classes :: "img_tag \<Rightarrow> string" where
  "parent_classes img =
     (case ancestors img of
        [] \<Rightarrow> []
      | parent # up \<Rightarrow> join '' '' (case classes parent of None \<Rightarrow> [] | Some cs \<Rightarrow> cs))"

definition img_score :: "img_tag \<Rightarrow> int" where
  "img_score img =
     (if list_ex (\<lambda>k. is_substring k (lower (parent_classes img))) content_keywords then 2 else 0) +
     (if list_ex (\<lambda>k. k \<in> set (case classes img of None \<Rightarrow> [] | Some cs \<Rightarrow> cs)) prominence_keywords
      then 3 else 0)"

fun collect_candidates ::
  "world \<Rightarrow> string \<Rightarrow> img_tag list \<Rightarrow> error + (int \<times> string \<times> img_tag) list" where
  "collect_candidates w article_url [] = Inr []"
| "collect_candidates w article_url (img # rest) =
     (case img_source img of
        Inl e \<Rightarrow> Inl e
      | Inr src \<Rightarrow>
          (case collect_candidates w article_url rest of
             Inl e \<Rightarrow> Inl e
           | Inr cands \<Rightarrow>
               (case make_absolute w article_url src of
                  None \<Rightarrow> Inr cands
                | Some url_abs \<Rightarrow>
                    if url_abs = [] \<or> is_probably_logo url_abs then Inr cands
                    else Inr ((img_score img, url_abs, img) # cands))))"

text \<open>
  \<open>img_candidates.sort(key=lambda t: t[0], reverse=True)\<close>: Python's sort is stable, also
  with \<open>reverse=True\<close>, as is the insertion sort \<open>sort_key\<close> on the negated score.
\<close>

definition sort_candidates ::
  "(int \<times> string \<times> img_tag) list \<Rightarrow> (int \<times> string \<times> img_tag) list" where
  "sort_candidates cands = sort_key (\<lambda>t. - fst t) cands"

text \<open>The one hop along a link that wraps the image; every exception in it is swallowed.\<close>

definition follow_parent_link :: "world \<Rightarrow> string \<Rightarrow> img_tag \<Rightarrow> bytes option" where
  "follow_parent_link w article_url img =
     (case ancestors img of
        [] \<Rightarrow> None
      | parent # up \<Rightarrow>
          if tag_name parent = ''a''
          then (case make_absolute w article_url (get_attr parent ''href'') of
                  None \<Rightarrow> None
                | Some href \<Rightarrow>
                    if href \<noteq> [] \<and> href \<noteq> article_url
                    then (case render w href of
                            None \<Rightarrow> None
                          | Some inner \<Rightarrow>
                              (case try_url w (meta_url w href inner (''property'', ''og:image'')) of
                                 Some img2 \<Rightarrow> Some img2
                               | None \<Rightarrow>
                                   (case imgs inner of
                                      [] \<Rightarrow> None
                                    | first_img # others \<Rightarrow>
                                        try_url w (make_absolute w href (get_attr first_img ''src'')))))
                    else None)
          else None)"

definition try_inline :: "world \<Rightarrow> string \<Rightarrow> int \<times> string \<times> img_tag \<Rightarrow> bytes option" where
  "try_inline w article_url cand =
     (case download_and_validate_image w (fst (snd cand)) of
        Some img \<Rightarrow> Some img
      | None \<Rightarrow> follow_parent_link w article_url (snd (snd cand)))"

definition inline_stage :: "world \<Rightarrow> string \<Rightarrow> page \<Rightarrow> error + bytes option" where
  "inline_stage w article_url pg =
     (case collect_candidates w article_url (imgs pg) of
        Inl e \<Rightarrow> Inl e
      | Inr cands \<Rightarrow> Inr (first_image (try_inline w article_url) (take 8 (sort_candidates cands))))"

text \<open>
  The resolver. An exception of a stage reaches the outer handler, which logs it and
  returns \<open>None\<close>.
\<close>

definition fetch_article_image :: "world \<Rightarrow> string \<Rightarrow> bytes option" where
  "fetch_article_image w article_url =
     (case render w article_url of
        None \<Rightarrow> None
      | Some pg \<Rightarrow>
          (case meta_stage w article_url pg of
             Some img \<Rightarrow> Some img
           | None \<Rightarrow>
               (case jsonld_stage w article_url pg of
                  Inl e \<Rightarrow> None
                | Inr (Some img) \<Rightarrow> Some img
                | Inr None \<Rightarrow>
                    (case inline_stage w article_url pg of
                       Inl e \<Rightarrow> None
                     | Inr r \<Rightarrow> r))))"

text \<open>A small world, a page and two image elements, for concrete inputs.\<close>

definition demo_world :: world where
  "demo_world = \<lparr>
     fetch = (\<lambda>u. if u = ''big.jpg'' then Some \<lparr>status_code = 200, content = ''BIG''\<rparr>
                  else if u = ''small.jpg'' then Some \<lparr>status_code = 200, content = ''SMALL''\<rparr>
                  else None),
     decode = (\<lambda>b. if b = ''BIG'' then Some (400, 250) else if b = ''SMALL'' then Some (399, 250) else None),
     render = (\<lambda>u. None),
     urljoin = (\<lambda>b u. Some u)\<rparr>"

definition demo_page :: page where
  "demo_page = \<lparr>
     metas = [\<lparr>tag_name = ''meta'', attrs = [(''property'', ''og:image''), (''content'', ''big.jpg'')],
               classes = None\<rparr>],
     ld_json = [Some (JObj [(''image'', JArr [JObj [(''url'', JStr ''ld.jpg'')]])])],
     imgs = [\<lparr>tag_name = ''img'', attrs = [(''src'', ''hero.jpg'')], classes = Some [''hero''],
              ancestors = [\<lparr>tag_name = ''div'', attrs = [], classes = Some [''article'']\<rparr>]\<rparr>]\<rparr>"

definition demo_site :: world where
  "demo_site = demo_world\<lparr>render := (\<lambda>u. Some demo_page)\<rparr>"

definition demo_img :: img_tag where
  "demo_img = \<lparr>tag_name = ''img'', attrs = [(''src'', ''a.jpg''), (''srcset'', ''b.jpg 2x, c.jpg 3x'')],
     classes = Some [''hero-image''],
     ancestors = [\<lparr>tag_name = ''figure'', attrs = [], classes = None\<rparr>,
                  \<lparr>tag_name = ''div'', attrs = [], classes = Some [''article'']\<rparr>]\<rparr>"

definition lazy_img :: img_tag where
  "lazy_img = \<lparr>tag_name = ''img'', attrs = [(''src'', ''''), (''data-src'', ''lazy.jpg'')],
     classes = None, ancestors = []\<rparr>"

section \<open>Deduplication Store and Article Pipeline\<close>

text \<open>
  The elements of \<open>posted_links\<close>, a Python \<open>set\<close>: the hashable values \<open>json.loads\<close>
  can yield, up to Python's \<open>==\<close> (which takes \<open>True\<close> for 1 and \<open>False\<close> for 0). A link
  \<open>l\<close> is the element \<open>KStr l\<close>. \<open>hash_key\<close> is \<open>None\<close> on a list or a dict, which
  are unhashable. \<open>py_set\<close> is \<open>set(v)\<close>: it iterates a list, the keys of a dict and
  the characters of a text, and raises \<open>TypeError\<close> on what cannot be iterated or hashed.
\<close>

datatype pykey = KNone | KNum rat | KStr string


fun key_json :: "pykey \<Rightarrow> json" where
  "key_json KNone = JNull"
| "key_json (KNum q) = JNum q"
| "key_json (KStr s) = JStr s"


text \<open>
  The file \<open>posted_links.json\<close>: missing (\<open>open\<close> raises \<open>FileNotFoundError\<close>),
  unreadable (\<open>open\<close> or \<open>read\<close> raises anything else), or holding a text. A write
  succeeds or fails, and a failed one leaves the file in some state.

  The library as the store uses it: \<open>loads\<close> is \<open>json.loads\<close> (\<open>None\<close>: it raises
  \<open>JSONDecodeError\<close>), \<open>dumps\<close> is the text \<open>json.dump(..., indent=2)\<close> writes, and
  \<open>listing\<close> is \<open>list(s)\<close>, the order in which the interpreter lists a set.
\<close>

datatype links_file = Missing | Unreadable | Text string

datatype write_outcome = Written | WriteFailed links_file

record py_lib =
  loads :: "string \<Rightarrow> json option"
  dumps :: "json \<Rightarrow> string"
  listing :: "pykey set \<Rightarrow> pykey list"


definition save_posted_links :: "py_lib \<Rightarrow> pykey set \<Rightarrow> write_outcome \<Rightarrow> links_file \<Rightarrow> links_file" where
  "save_posted_links lib posted outcome f =
     (case outcome of
        Written \<Rightarrow> Text (dumps lib (JArr (map key_json (listing lib posted))))
      | WriteFailed left \<Rightarrow> left)"

text \<open>
  The answer to a call of the Telegram API: \<open>requests.post\<close> raises, or there is a
  response with its status and what \<open>response.json()\<close> gives (\<open>None\<close>: it raises).
  Both senders catch every exception and return \<open>False\<close>; on a body that is not a dict
  \<open>result.get\<close> raises, which gives \<open>False\<close> as well.
\<close>

datatype http_result = Raises | Reply nat "json option"

definition telegram_ok :: "http_result \<Rightarrow> bool" where
  "telegram_ok r =
     (case r of
        Raises \<Rightarrow> False
      | Reply status body \<Rightarrow>
          (case body of
             Some (JObj kvs) \<Rightarrow>
               status = 200 \<and> (case map_of kvs ''ok'' of None \<Rightarrow> False | Some v \<Rightarrow> truthy v)
           | _ \<Rightarrow> False))"

definition send_telegram_photo_sync :: "http_result \<Rightarrow> bool" where
  "send_telegram_photo_sync r = telegram_ok r"

definition send_telegram_message_sync :: "http_result \<Rightarrow> bool" where
  "send_telegram_message_sync r = telegram_ok r"

text \<open>
  One pass of the loop of \<open>process_and_send_news\<close>. An attempt holds what the outside
  does for one article if it is processed: the card \<open>create_professional_news_card\<close>
  returns (\<open>None\<close> when it gives up), the answers to \<open>sendPhoto\<close> and to the debug
  message, and the outcome of the write in \<open>save_posted_links\<close>. The state is the set,
  the file, and the links of the photos the Publisher has reported as delivered. The
  answer to the debug message changes nothing.
\<close>

record article =
  news_title :: string
  news_link :: string

record attempt =
  card_data :: "string option"
  photo :: http_result
  debug :: http_result
  write_result :: write_outcome

record bot_state =
  posted_links :: "pykey set"
  disk :: links_file
  delivered :: "string list"

definition process_article :: "py_lib \<Rightarrow> bot_state \<Rightarrow> article \<times> attempt \<Rightarrow> bot_state" where
  "process_article lib st x =
     (case x of (art, a) \<Rightarrow>
        if KStr (news_link art) \<in> posted_links st then st
        else (case card_data a of
                None \<Rightarrow> st
              | Some image_data \<Rightarrow>
                  if send_telegram_photo_sync (photo a)
                  then
                    let posted = insert (KStr (news_link art)) (posted_links st)
                    in st\<lparr>posted_links := posted,
                          delivered := delivered st @ [news_link art],
                          disk := save_posted_links lib posted (write_result a) (disk st)\<rparr>
                  else st))"

definition process_and_send_news :: "py_lib \<Rightarrow> (article \<times> attempt) list \<Rightarrow> bot_state \<Rightarrow> bot_state" where
  "process_and_send_news lib news st = foldl (process_article lib) st news"

text \<open>
  Concrete inputs: the text \<open>json.dump\<close> writes for two links, a table of the
  library on the few texts and values the examples use, and a run of four articles.
\<close>

definition saved_text :: string where
  "saved_text =
     ''['' @ [CHR 0x0A] @ ''  '' @ [CHR 0x22] @ ''https://n/1'' @ [CHR 0x22] @ '','' @ [CHR 0x0A] @
     ''  '' @ [CHR 0x22] @ ''https://n/2'' @ [CHR 0x22] @ [CHR 0x0A] @ '']''"

definition demo_lib :: py_lib where
  "demo_lib = \<lparr>
     loads = (\<lambda>c. if c = ''5'' then Some (JNum 5)
                  else if c = ''[1]'' then Some (JArr [JNum 1])
                  else if c = saved_text then Some (JArr [JStr ''https://n/1'', JStr ''https://n/2''])
                  else None),
     dumps = (\<lambda>v. if v = JArr [JStr ''https://n/1'', JStr ''https://n/2''] then saved_text else ''[]''),
     listing = (\<lambda>s. filter (\<lambda>k. k \<in> s)
                    [KStr ''https://n/3'', KStr ''https://n/1'', KStr ''https://n/2''])\<rparr>"

definition ok_reply :: http_result where
  "ok_reply = Reply 200 (Some (JObj [(''ok'', JBool True)]))"

definition demo_news :: "(article \<times> attempt) list" where
  "demo_news =
     [(\<lparr>news_title = ''Old'', news_link = ''https://n/1''\<rparr>,
       \<lparr>card_data = Some ''PNG1'', photo = ok_reply, debug = ok_reply, write_result = Written\<rparr>),
      (\<lparr>news_title = ''Refused'', news_link = ''https://n/2''\<rparr>,
       \<lparr>card_data = Some ''PNG2'', photo = Reply 429 (Some (JObj [(''ok'', JBool False)])),
        debug = ok_reply, write_result = Written\<rparr>),
      (\<lparr>news_title = ''Down'', news_link = ''https://n/4''\<rparr>,
       \<lparr>card_data = Some ''PNG4'', photo = Raises, debug = ok_reply, write_result = Written\<rparr>),
      (\<lparr>news_title = ''New'', news_link = ''https://n/3''\<rparr>,
       \<lparr>card_data = Some ''PNG3'', photo = ok_reply, debug = Raises, write_result = Written\<rparr>)]"

definition demo_state :: bot_state where
  "demo_state = \<lparr>posted_links = {KStr ''https://n/1''}, disk = Missing, delivered = [''https://n/1'']\<rparr>"

section \<open>Properties of the Text Sanitizer\<close>

lemma underscore_code: "(c = CHR ''_'') = ((of_char c :: nat) = 95)"
proof -
  have "(of_char (CHR ''_'') :: nat) = 95" by simp
  then show ?thesis by (metis of_char_eq_iff)
qed

lemma of_char_py_lower:
  "(of_char (py_lower c) :: nat) =
     (let n = (of_char c :: nat) in
      if (65 \<le> n \<and> n \<le> 90) \<or> (192 \<le> n \<and> n \<le> 214) \<or> (216 \<le> n \<and> n \<le> 222)
      then n + 32 else n)"
  using nat_of_char_less_256[of c] by (auto simp: py_lower_def Let_def)

lemma is_word_char_code:
  "is_word_char c = (let n = (of_char c :: nat) in
     (48 \<le> n \<and> n \<le> 57) \<or> (65 \<le> n \<and> n \<le> 90) \<or> n = 95 \<or> (97 \<le> n \<and> n \<le> 122) \<or>
     n = 170 \<or> n = 178 \<or> n = 179 \<or> n = 181 \<or> n = 185 \<or> n = 186 \<or>
     (188 \<le> n \<and> n \<le> 190) \<or> (192 \<le> n \<and> n \<le> 214) \<or> (216 \<le> n \<and> n \<le> 246) \<or>
     248 \<le> n)"
  by (auto simp: is_word_char_def isalnum_def Let_def underscore_code)

lemma is_word_char_py_lower: "is_word_char (py_lower c) = is_word_char c"
  unfolding is_word_char_code of_char_py_lower Let_def by auto

lemma match_char_word: "py_lower c = py_lower p \<Longrightarrow> is_word_char c = is_word_char p"
  by (metis is_word_char_py_lower)

lemma match_literal_iff:
  "match_literal w s \<longleftrightarrow> length w \<le> length s \<and> ci_eq (take (length w) s) w"
  by (induction w s rule: match_literal.induct) (auto simp: ci_eq_def)

lemma ci_eq_length: "ci_eq t w \<Longrightarrow> length t = length w"
  unfolding ci_eq_def by (metis length_map)

lemma ci_eq_word:
  assumes "ci_eq t w" and "list_all is_word_char w"
  shows "list_all is_word_char t"
proof -
  have len: "length t = length w" using assms(1) by (rule ci_eq_length)
  have "\<And>i. i < length t \<Longrightarrow> is_word_char (t ! i)"
  proof -
    fix i assume i: "i < length t"
    have "map py_lower t ! i = map py_lower w ! i" using assms(1) by (simp add: ci_eq_def)
    then have "py_lower (t ! i) = py_lower (w ! i)" using i len by simp
    moreover have "is_word_char (w ! i)" using assms(2) i len by (simp add: list_all_length)
    ultimately show "is_word_char (t ! i)" using match_char_word by blast
  qed
  then show ?thesis by (simp add: list_all_length)
qed

lemma match_literal_inside_start:
  assumes m: "match_literal w (a @ b)" and w: "list_all is_word_char w"
    and b: "b = [] \<or> \<not> is_word_char (hd b)"
  shows "length w \<le> length a"
proof (rule ccontr)
  assume "\<not> length w \<le> length a"
  then have lt: "length a < length w" by simp
  from m have le: "length w \<le> length (a @ b)" and ci: "ci_eq (take (length w) (a @ b)) w"
    by (simp_all add: match_literal_iff)
  from lt le have bne: "b \<noteq> []" by auto
  have "list_all is_word_char (take (length w) (a @ b))" using ci w by (rule ci_eq_word)
  moreover have "take (length w) (a @ b) = a @ take (length w - length a) b" using lt by simp
  moreover have "take (length w - length a) b = hd b # take (length w - length a - 1) (tl b)"
    using lt bne by (cases b) (auto simp: take_Cons')
  ultimately have "is_word_char (hd b)" by simp
  with b bne show False by simp
qed

lemma match_literal_inside_end:
  assumes m: "match_literal w (a @ b)" and w: "list_all is_word_char w"
    and a: "a \<noteq> []" "\<not> is_word_char (last a)"
  shows "length w < length a"
proof (rule ccontr)
  assume "\<not> length w < length a"
  then have ge: "length a \<le> length w" by simp
  from m have ci: "ci_eq (take (length w) (a @ b)) w" by (simp add: match_literal_iff)
  have "list_all is_word_char (take (length w) (a @ b))" using ci w by (rule ci_eq_word)
  moreover have "take (length w) (a @ b) = a @ take (length w - length a) b" using ge by simp
  ultimately have "list_all is_word_char a" by simp
  then have "is_word_char (last a)" using a(1) by (simp add: list_all_iff)
  with a(2) show False by simp
qed

lemma first_char_append: "a \<noteq> [] \<Longrightarrow> first_char (a @ b) = first_char a"
  by (cases a) auto

lemma is_word_at_first_char: "is_word_at (first_char b) = (b \<noteq> [] \<and> is_word_char (hd b))"
  by (cases b) auto

lemma match_at_append:
  assumes w: "list_all is_word_char w" "w \<noteq> []" and a: "a \<noteq> []"
    and j: "b = [] \<or> \<not> is_word_char (hd b) \<or> \<not> is_word_char (last a)"
  shows "match_at w prev (a @ b) = match_at w prev a"
    and "match_at w prev (a @ b) \<Longrightarrow> length w \<le> length a"
proof -
  have inside: "match_literal w (a @ b) \<Longrightarrow> length w \<le> length a"
    using j match_literal_inside_start[of w a b] match_literal_inside_end[of w a b] w a
    by fastforce
  then show "match_at w prev (a @ b) \<Longrightarrow> length w \<le> length a" by (simp add: match_at_def)
  show "match_at w prev (a @ b) = match_at w prev a"
  proof (cases "length w \<le> length a")
    case False
    then have "\<not> match_literal w (a @ b)" using inside by blast
    moreover have "\<not> match_literal w a" using False by (simp add: match_literal_iff)
    ultimately show ?thesis by (simp add: match_at_def)
  next
    case True
    have lit: "match_literal w (a @ b) = match_literal w a"
      using True by (simp add: match_literal_iff)
    have tk: "take (length w) (a @ b) = take (length w) a" using True by simp
    have dr: "drop (length w) (a @ b) = drop (length w) a @ b" using True by simp
    have nxt: "match_literal w (a @ b) \<Longrightarrow>
       is_word_at (first_char (drop (length w) a @ b)) = is_word_at (first_char (drop (length w) a))"
    proof (cases "drop (length w) a = []")
      case False
      then show ?thesis by (simp add: first_char_append)
    next
      case dn: True
      assume m: "match_literal w (a @ b)"
      from dn True have "length w = length a" by simp
      then have "\<not> length w < length a" by simp
      then have "is_word_char (last a)" using match_literal_inside_end[OF m w(1) a] by blast
      then have "b = [] \<or> \<not> is_word_char (hd b)" using j by blast
      then show ?thesis using dn by (auto simp: is_word_at_first_char)
    qed
    show ?thesis
      unfolding match_at_def tk dr first_char_append[OF a] lit
      using nxt lit by (auto simp: word_boundary_def)
  qed
qed

lemma re_sub_from_Nil: "w \<noteq> [] \<Longrightarrow> re_sub_from w r prev [] = []"
  by (cases w) auto

lemma re_sub_from_Cons:
  "w \<noteq> [] \<Longrightarrow> re_sub_from w r prev (c # cs) =
     (if match_at w prev (c # cs)
      then r @ re_sub_from w r (Some (last (take (length w) (c # cs)))) (drop (length w) (c # cs))
      else c # re_sub_from w r (Some c) cs)"
  by (cases w) auto

lemma re_sub_from_append:
  assumes w: "list_all is_word_char w" "w \<noteq> []"
  shows "a = [] \<or> b = [] \<or> \<not> is_word_char (hd b) \<or> \<not> is_word_char (last a) \<Longrightarrow>
     re_sub_from w r prev (a @ b) =
     re_sub_from w r prev a @ re_sub_from w r (if a = [] then prev else Some (last a)) b"
proof (induction "length a" arbitrary: a prev rule: less_induct)
  case less
  show ?case
  proof (cases a)
    case Nil
    then show ?thesis using w by (simp add: re_sub_from_Nil)
  next
    case (Cons c cs)
    then have ane: "a \<noteq> []" by simp
    have j: "b = [] \<or> \<not> is_word_char (hd b) \<or> \<not> is_word_char (last a)"
      using less.prems ane by blast
    note ma = match_at_append[OF w ane j]
    show ?thesis
    proof (cases "match_at w prev a")
      case True
      then have mab: "match_at w prev (a @ b)" using ma(1) by simp
      then have le: "length w \<le> length a" using ma(2) by simp
      define a' where "a' = drop (length w) a"
      have short: "length a' < length a" using le w(2) ane by (simp add: a'_def)
      have tk: "take (length w) (a @ b) = take (length w) a" using le by simp
      have dr: "drop (length w) (a @ b) = a' @ b" using le by (simp add: a'_def)
      have lasta: "a' \<noteq> [] \<Longrightarrow> last a' = last a" by (simp add: a'_def)
      have lastm: "a' = [] \<Longrightarrow> last (take (length w) a) = last a" using le by (simp add: a'_def)
      have j': "a' = [] \<or> b = [] \<or> \<not> is_word_char (hd b) \<or> \<not> is_word_char (last a')"
        using j lasta by auto
      have IH: "re_sub_from w r (Some (last (take (length w) a))) (a' @ b) =
          re_sub_from w r (Some (last (take (length w) a))) a' @
          re_sub_from w r (if a' = [] then Some (last (take (length w) a)) else Some (last a')) b"
        using less.hyps[OF short j'] .
      have ctx: "(if a' = [] then Some (last (take (length w) a)) else Some (last a')) = Some (last a)"
        using lasta lastm by auto
      have l: "re_sub_from w r prev (a @ b) =
          r @ re_sub_from w r (Some (last (take (length w) a))) (a' @ b)"
        using mab re_sub_from_Cons[OF w(2), of r prev c "cs @ b"] Cons tk dr by simp
      have rr: "re_sub_from w r prev a = r @ re_sub_from w r (Some (last (take (length w) a))) a'"
        using True re_sub_from_Cons[OF w(2), of r prev c cs] Cons by (simp add: a'_def)
      show ?thesis using l rr IH ctx ane by simp
    next
      case False
      then have nab: "\<not> match_at w prev (a @ b)" using ma(1) by simp
      have short: "length cs < length a" using Cons by simp
      have j': "cs = [] \<or> b = [] \<or> \<not> is_word_char (hd b) \<or> \<not> is_word_char (last cs)"
        using j Cons by auto
      have IH: "re_sub_from w r (Some c) (cs @ b) =
          re_sub_from w r (Some c) cs @ re_sub_from w r (if cs = [] then Some c else Some (last cs)) b"
        using less.hyps[OF short j'] .
      have ctx: "(if cs = [] then Some c else Some (last cs)) = Some (last a)"
        using Cons by auto
      have l: "re_sub_from w r prev (a @ b) = c # re_sub_from w r (Some c) (cs @ b)"
        using nab re_sub_from_Cons[OF w(2), of r prev c "cs @ b"] Cons by simp
      have rr: "re_sub_from w r prev a = c # re_sub_from w r (Some c) cs"
        using False re_sub_from_Cons[OF w(2), of r prev c cs] Cons by simp
      show ?thesis using l rr IH ctx ane by simp
    qed
  qed
qed

lemma match_at_needs_word:
  assumes w: "list_all is_word_char w" "w \<noteq> []" and m: "match_at w prev (c # cs)"
  shows "is_word_char c" and "\<not> is_word_at prev"
proof -
  from m have ml: "match_literal w (c # cs)" by (simp add: match_at_def)
  obtain p ps where wp: "w = p # ps" using w(2) by (cases w) auto
  from ml wp have "py_lower c = py_lower p" by simp
  moreover have "is_word_char p" using w(1) wp by simp
  ultimately show c: "is_word_char c" using match_char_word by blast
  from m have "word_boundary prev (Some c)" by (simp add: match_at_def)
  with c show "\<not> is_word_at prev" by (simp add: word_boundary_def)
qed

lemma re_sub_from_context:
  assumes w: "w \<noteq> []" and "is_word_at p1 = is_word_at p2"
  shows "re_sub_from w r p1 s = re_sub_from w r p2 s"
proof (cases s)
  case Nil
  then show ?thesis using w by (simp add: re_sub_from_Nil)
next
  case (Cons c cs)
  have "match_at w p1 (c # cs) = match_at w p2 (c # cs)"
    using assms(2) by (simp add: match_at_def word_boundary_def)
  then show ?thesis using Cons w by (simp add: re_sub_from_Cons)
qed

lemma re_sub_from_nonword_start:
  assumes w: "list_all is_word_char w" "w \<noteq> []" and b: "b = [] \<or> \<not> is_word_char (hd b)"
  shows "re_sub_from w r prev b = re_sub w r b"
proof (cases b)
  case Nil
  then show ?thesis using w by (simp add: re_sub_from_Nil re_sub_def)
next
  case (Cons c cs)
  then have "\<not> is_word_char c" using b by simp
  then have "\<not> match_at w p (c # cs)" for p using match_at_needs_word(1)[OF w] by blast
  then show ?thesis using Cons w by (simp add: re_sub_from_Cons re_sub_def)
qed

lemma re_sub_append:
  assumes w: "list_all is_word_char w" "w \<noteq> []"
    and j: "b = [] \<or> \<not> is_word_char (hd b) \<or> a = [] \<or> \<not> is_word_char (last a)"
  shows "re_sub w r (a @ b) = re_sub w r a @ re_sub w r b"
proof (cases "a = []")
  case True
  then show ?thesis using w by (simp add: re_sub_def re_sub_from_Nil)
next
  case False
  have j': "a = [] \<or> b = [] \<or> \<not> is_word_char (hd b) \<or> \<not> is_word_char (last a)"
    using j by blast
  have split: "re_sub w r (a @ b) = re_sub w r a @ re_sub_from w r (Some (last a)) b"
    using re_sub_from_append[OF w j', of r None] False by (simp add: re_sub_def)
  have "re_sub_from w r (Some (last a)) b = re_sub w r b"
  proof (cases "b = [] \<or> \<not> is_word_char (hd b)")
    case True
    then show ?thesis by (rule re_sub_from_nonword_start[OF w])
  next
    case nb: False
    then have "\<not> is_word_char (last a)" using j False by blast
    then have "is_word_at (Some (last a)) = is_word_at None" by simp
    then show ?thesis unfolding re_sub_def by (rule re_sub_from_context[OF w(2)])
  qed
  with split show ?thesis by simp
qed

lemma re_sub_from_inside_word:
  assumes w: "list_all is_word_char w" "w \<noteq> []"
  shows "list_all is_word_char s \<Longrightarrow> is_word_at prev \<Longrightarrow> re_sub_from w r prev s = s"
proof (induction s arbitrary: prev)
  case Nil
  then show ?case using w by (simp add: re_sub_from_Nil)
next
  case (Cons c cs)
  have "\<not> match_at w prev (c # cs)" using match_at_needs_word(2)[OF w] Cons.prems(2) by blast
  moreover have "re_sub_from w r (Some c) cs = cs" using Cons by simp
  ultimately show ?case using w by (simp add: re_sub_from_Cons)
qed

lemma re_sub_token:
  assumes w: "list_all is_word_char w" "w \<noteq> []" and t: "list_all is_word_char t"
  shows "re_sub w r t = (if ci_eq t w then r else t)"
proof (cases t)
  case Nil
  then show ?thesis using w by (auto simp: re_sub_def re_sub_from_Nil ci_eq_def)
next
  case (Cons c cs)
  have c: "is_word_char c" and cs: "list_all is_word_char cs" using t Cons by simp_all
  have m: "match_at w None t = ci_eq t w"
  proof (cases "length w \<le> length t")
    case False
    then have "\<not> match_literal w t" by (simp add: match_literal_iff)
    moreover have "\<not> ci_eq t w" using False ci_eq_length by fastforce
    ultimately show ?thesis by (simp add: match_at_def)
  next
    case True
    have lastw: "is_word_char (last (take (length w) t))"
    proof -
      have "take (length w) t \<noteq> []" using w(2) Cons by simp
      moreover have "list_all is_word_char (take (length w) t)"
        using t by (simp add: list_all_iff) (meson in_set_takeD)
      ultimately show ?thesis by (simp add: list_all_iff)
    qed
    have nxt: "is_word_at (first_char (drop (length w) t)) = (length w < length t)"
    proof (cases "drop (length w) t")
      case Nil
      then show ?thesis by simp
    next
      case (Cons d ds)
      then have "d \<in> set t" by (metis in_set_dropD list.set_intros(1))
      then have "is_word_char d" using t by (simp add: list_all_iff)
      moreover have "length w < length t" using Cons by (metis drop_eq_Nil list.distinct(1) not_le)
      ultimately show ?thesis using Cons by simp
    qed
    have "match_at w None t = (match_literal w t \<and> \<not> length w < length t)"
      using c Cons lastw nxt by (auto simp: match_at_def word_boundary_def)
    also have "\<dots> = (ci_eq (take (length w) t) w \<and> length w = length t)"
      using True by (auto simp: match_literal_iff)
    also have "\<dots> = ci_eq t w" using ci_eq_length by fastforce
    finally show ?thesis .
  qed
  show ?thesis
  proof (cases "ci_eq t w")
    case True
    then have "length w = length t" using ci_eq_length by fastforce
    then show ?thesis
      using True m Cons w by (simp add: re_sub_def re_sub_from_Cons re_sub_from_Nil)
  next
    case False
    have "re_sub_from w r (Some c) cs = cs" using re_sub_from_inside_word[OF w cs] c by simp
    then show ?thesis using False m Cons w by (simp add: re_sub_def re_sub_from_Cons)
  qed
qed

lemma py_lower_letters:
  "py_lower CHR ''K'' = CHR ''k''" "py_lower CHR ''M'' = CHR ''m''" "py_lower CHR ''A'' = CHR ''a''"
  "py_lower CHR ''S'' = CHR ''s''" "py_lower CHR ''R'' = CHR ''r''" "py_lower CHR ''G'' = CHR ''g''"
  "py_lower CHR ''I'' = CHR ''i''" "py_lower CHR ''P'' = CHR ''p''"
  "py_lower CHR ''a'' = CHR ''a''" "py_lower CHR ''b'' = CHR ''b''" "py_lower CHR ''d'' = CHR ''d''"
  "py_lower CHR ''e'' = CHR ''e''" "py_lower CHR ''g'' = CHR ''g''" "py_lower CHR ''h'' = CHR ''h''"
  "py_lower CHR ''i'' = CHR ''i''" "py_lower CHR ''k'' = CHR ''k''" "py_lower CHR ''l'' = CHR ''l''"
  "py_lower CHR ''m'' = CHR ''m''" "py_lower CHR ''n'' = CHR ''n''" "py_lower CHR ''p'' = CHR ''p''"
  "py_lower CHR ''r'' = CHR ''r''" "py_lower CHR ''s'' = CHR ''s''" "py_lower CHR ''t'' = CHR ''t''"
  "py_lower CHR ''u'' = CHR ''u''" "py_lower CHR ''z'' = CHR ''z''"
  by (simp_all add: py_lower_def char_of_eq_iff)

lemma word_letters:
  "is_word_char CHR ''K''" "is_word_char CHR ''M''" "is_word_char CHR ''A''"
  "is_word_char CHR ''S''" "is_word_char CHR ''R''" "is_word_char CHR ''G''"
  "is_word_char CHR ''I''" "is_word_char CHR ''P''"
  "is_word_char CHR ''a''" "is_word_char CHR ''b''" "is_word_char CHR ''d''"
  "is_word_char CHR ''e''" "is_word_char CHR ''g''" "is_word_char CHR ''h''"
  "is_word_char CHR ''i''" "is_word_char CHR ''k''" "is_word_char CHR ''l''"
  "is_word_char CHR ''m''" "is_word_char CHR ''n''" "is_word_char CHR ''p''"
  "is_word_char CHR ''r''" "is_word_char CHR ''s''" "is_word_char CHR ''t''"
  "is_word_char CHR ''u''" "is_word_char CHR ''z''" "\<not> is_word_char CHR ''*''"
  by (simp_all add: is_word_char_def isalnum_def)

lemma rules_wordy: "(w, r) \<in> set replacements \<Longrightarrow> list_all is_word_char w \<and> w \<noteq> []"
  by (auto simp: replacements_def word_letters)

lemma tokens_free:
  "\<forall>t\<in>set [''Ki'', ''ll'', ''lls'', ''Kil'', ''led'', ''Mu'', ''rder'', ''rders'', ''Mur'', ''dered'',
      ''As'', ''sa'', ''ssinate'', ''ssinates'', ''ssinated'', ''St'', ''ab'', ''abs'', ''abbed'',
      ''Sl'', ''aughter'', ''aughters'', ''aughtered'', ''Ra'', ''pe'', ''pes'', ''ped'',
      ''Ga'', ''za'', ''Isr'', ''ael'', ''Pa'', ''le'', ''stine''].
     list_all is_word_char t \<and> (\<forall>(w, r)\<in>set replacements. \<not> ci_eq t w)"
  by (simp add: replacements_def ci_eq_def word_letters py_lower_letters)

lemma re_sub_empty: "w \<noteq> [] \<Longrightarrow> re_sub w r [] = []"
  by (simp add: re_sub_def re_sub_from_Nil)

lemma re_sub_nonword_single:
  assumes "list_all is_word_char w" "w \<noteq> []" "\<not> is_word_char c"
  shows "re_sub w r [c] = [c]"
proof -
  have "\<not> match_at w None [c]" using match_at_needs_word(1)[OF assms(1,2)] assms(3) by blast
  then show ?thesis using assms(2) by (simp add: re_sub_def re_sub_from_Cons re_sub_from_Nil)
qed

lemma re_sub_nonword_Cons:
  assumes "list_all is_word_char w" "w \<noteq> []" "\<not> is_word_char c"
  shows "re_sub w r (c # s) = c # re_sub w r s"
proof -
  have "re_sub w r ([c] @ s) = re_sub w r [c] @ re_sub w r s"
    using assms by (intro re_sub_append) simp_all
  then show ?thesis using re_sub_nonword_single[OF assms] by simp
qed

lemma re_sub_nonword_snoc:
  assumes "list_all is_word_char w" "w \<noteq> []" "\<not> is_word_char c"
  shows "re_sub w r (s @ [c]) = re_sub w r s @ [c]"
proof -
  have "re_sub w r (s @ [c]) = re_sub w r s @ re_sub w r [c]"
    using assms by (intro re_sub_append) simp_all
  then show ?thesis using re_sub_nonword_single[OF assms] by simp
qed

lemma re_sub_starts_outside:
  assumes "list_all is_word_char w" "w \<noteq> []" "starts_outside_word s"
  shows "starts_outside_word (re_sub w r s)"
proof (cases s)
  case Nil
  then show ?thesis using assms(2) by (simp add: re_sub_empty starts_outside_word_def)
next
  case (Cons c cs)
  then have "\<not> is_word_char c" using assms(3) by (simp add: starts_outside_word_def)
  then show ?thesis
    using Cons re_sub_nonword_Cons[OF assms(1,2)] by (simp add: starts_outside_word_def)
qed

lemma re_sub_ends_outside:
  assumes "list_all is_word_char w" "w \<noteq> []" "ends_outside_word s"
  shows "ends_outside_word (re_sub w r s)"
proof (cases s rule: rev_cases)
  case Nil
  then show ?thesis using assms(2) by (simp add: re_sub_empty ends_outside_word_def)
next
  case (snoc cs c)
  then have "\<not> is_word_char c" using assms(3) by (simp add: ends_outside_word_def)
  then show ?thesis
    using snoc re_sub_nonword_snoc[OF assms(1,2)] by (simp add: ends_outside_word_def)
qed

lemma apply_rules_Nil: "apply_rules [] s = s"
  by (simp add: apply_rules_def)

lemma apply_rules_Cons: "apply_rules ((w, r) # rules) s = apply_rules rules (re_sub w r s)"
  by (simp add: apply_rules_def)

lemma apply_rules_append:
  "well_formed_rules rules \<Longrightarrow> starts_outside_word b \<or> ends_outside_word a \<Longrightarrow>
   apply_rules rules (a @ b) = apply_rules rules a @ apply_rules rules b"
proof (induction rules arbitrary: a b)
  case Nil
  then show ?case by (simp add: apply_rules_Nil)
next
  case (Cons rule rules)
  obtain w r where rule: "rule = (w, r)" by (cases rule)
  have w: "list_all is_word_char w" "w \<noteq> []" and rest: "well_formed_rules rules"
    using Cons.prems(1) rule by (simp_all add: well_formed_rules_def)
  have j: "b = [] \<or> \<not> is_word_char (hd b) \<or> a = [] \<or> \<not> is_word_char (last a)"
    using Cons.prems(2) by (auto simp: starts_outside_word_def ends_outside_word_def)
  have split: "re_sub w r (a @ b) = re_sub w r a @ re_sub w r b"
    by (rule re_sub_append[OF w j])
  have keep: "starts_outside_word (re_sub w r b) \<or> ends_outside_word (re_sub w r a)"
    using Cons.prems(2) re_sub_starts_outside[OF w] re_sub_ends_outside[OF w] by blast
  show ?case
    unfolding rule apply_rules_Cons split by (rule Cons.IH[OF rest keep])
qed

lemma apply_rules_empty: "well_formed_rules rules \<Longrightarrow> apply_rules rules [] = []"
proof (induction rules)
  case Nil
  then show ?case by (simp add: apply_rules_Nil)
next
  case (Cons rule rules)
  obtain w r where rule: "rule = (w, r)" by (cases rule)
  then show ?case using Cons by (simp add: apply_rules_Cons well_formed_rules_def re_sub_empty)
qed

lemma apply_rules_nonword_single:
  "well_formed_rules rules \<Longrightarrow> \<not> is_word_char c \<Longrightarrow> apply_rules rules [c] = [c]"
proof (induction rules)
  case Nil
  then show ?case by (simp add: apply_rules_Nil)
next
  case (Cons rule rules)
  obtain w r where rule: "rule = (w, r)" by (cases rule)
  then show ?case
    using Cons by (simp add: apply_rules_Cons well_formed_rules_def re_sub_nonword_single)
qed

lemma apply_rules_fixed:
  "list_all (\<lambda>(w, r). re_sub w r x = x) rules \<Longrightarrow> apply_rules rules x = x"
proof (induction rules)
  case Nil
  then show ?case by (simp add: apply_rules_Nil)
next
  case (Cons rule rules)
  obtain w r where rule: "rule = (w, r)" by (cases rule)
  then show ?case using Cons by (simp add: apply_rules_Cons)
qed

lemma apply_rules_token:
  assumes t: "list_all is_word_char t"
  shows "well_formed_rules rules \<Longrightarrow>
     list_all (\<lambda>(w, r). list_all (\<lambda>(w', r'). re_sub w' r' r = r) rules) rules \<Longrightarrow>
     apply_rules rules t = (case find (\<lambda>(w, r). ci_eq t w) rules of None \<Rightarrow> t | Some (w, r) \<Rightarrow> r)"
proof (induction rules)
  case Nil
  then show ?case by (simp add: apply_rules_Nil)
next
  case (Cons rule rules)
  obtain w r where rule: "rule = (w, r)" by (cases rule)
  have w: "list_all is_word_char w" "w \<noteq> []" and rest: "well_formed_rules rules"
    using Cons.prems(1) rule by (simp_all add: well_formed_rules_def)
  have fixr: "list_all (\<lambda>(w', r'). re_sub w' r' r = r) rules"
    using Cons.prems(2) rule by simp
  have fixrest: "list_all (\<lambda>(w, r). list_all (\<lambda>(w', r'). re_sub w' r' r = r) rules) rules"
    using Cons.prems(2) by (auto simp: list_all_iff)
  show ?case
  proof (cases "ci_eq t w")
    case True
    then show ?thesis
      using rule re_sub_token[OF w t, of r] apply_rules_fixed[OF fixr]
      by (simp add: apply_rules_Cons)
  next
    case False
    then show ?thesis
      using rule re_sub_token[OF w t, of r] Cons.IH[OF rest fixrest]
      by (simp add: apply_rules_Cons)
  qed
qed

lemma replacements_well_formed: "well_formed_rules replacements"
  by (simp add: well_formed_rules_def replacements_def word_letters)

lemma re_sub_masked_two:
  assumes w: "list_all is_word_char w" "w \<noteq> []"
    and t: "list_all is_word_char t1" "list_all is_word_char t2"
    and n: "\<not> ci_eq t1 w" "\<not> ci_eq t2 w"
  shows "re_sub w r (t1 @ CHR ''*'' # t2) = t1 @ CHR ''*'' # t2"
proof -
  have "re_sub w r (t1 @ CHR ''*'' # t2) = re_sub w r t1 @ re_sub w r (CHR ''*'' # t2)"
    using w by (intro re_sub_append) (simp_all add: word_letters)
  also have "\<dots> = re_sub w r t1 @ CHR ''*'' # re_sub w r t2"
    using w by (simp add: re_sub_nonword_Cons word_letters)
  finally show ?thesis using re_sub_token[OF w] t n by simp
qed

lemma re_sub_masked_three:
  assumes w: "list_all is_word_char w" "w \<noteq> []"
    and t: "list_all is_word_char t1" "list_all is_word_char t2" "list_all is_word_char t3"
    and n: "\<not> ci_eq t1 w" "\<not> ci_eq t2 w" "\<not> ci_eq t3 w"
  shows "re_sub w r (t1 @ CHR ''*'' # t2 @ CHR ''*'' # t3) = t1 @ CHR ''*'' # t2 @ CHR ''*'' # t3"
proof -
  have "re_sub w r (t1 @ CHR ''*'' # t2 @ CHR ''*'' # t3) =
        re_sub w r t1 @ re_sub w r (CHR ''*'' # t2 @ CHR ''*'' # t3)"
    using w by (intro re_sub_append) (simp_all add: word_letters)
  also have "\<dots> = re_sub w r t1 @ CHR ''*'' # re_sub w r (t2 @ CHR ''*'' # t3)"
    using w by (simp add: re_sub_nonword_Cons word_letters)
  finally show ?thesis
    using re_sub_token[OF w t(1)] n(1) re_sub_masked_two[OF w t(2,3) n(2,3)] by simp
qed

lemma replacement_tokens_free:
  "\<forall>t\<in>set [''Ki'', ''ll'', ''lls'', ''Kil'', ''led'', ''Mu'', ''rder'', ''rders'', ''Mur'', ''dered'', ''As'', ''sa'', ''ssinate'', ''ssinates'', ''ssinated'', ''St'', ''ab'', ''abs'', ''abbed'', ''Sl'', ''aughter'', ''aughters'', ''aughtered'', ''Ra'', ''pe'', ''pes'', ''ped'', ''Ga'', ''za'', ''Isr'', ''ael'', ''Pa'', ''le'', ''stine''].
     list_all is_word_char t \<and> (\<forall>(w, r)\<in>set replacements. \<not> ci_eq t w)"
  by (simp add: replacements_def ci_eq_def word_letters py_lower_letters)

lemma replacement_fixed:
  assumes r: "(w, r) \<in> set replacements" and w': "(w', r') \<in> set replacements"
  shows "re_sub w' r' r = r"
proof -
  let ?toks = "[''Ki'', ''ll'', ''lls'', ''Kil'', ''led'', ''Mu'', ''rder'', ''rders'', ''Mur'', ''dered'', ''As'', ''sa'', ''ssinate'', ''ssinates'', ''ssinated'', ''St'', ''ab'', ''abs'', ''abbed'', ''Sl'', ''aughter'', ''aughters'', ''aughtered'', ''Ra'', ''pe'', ''pes'', ''ped'', ''Ga'', ''za'', ''Isr'', ''ael'', ''Pa'', ''le'', ''stine'']"
  have wf: "list_all is_word_char w'" "w' \<noteq> []" using rules_wordy[OF w'] by simp_all
  have free: "t \<in> set ?toks \<Longrightarrow> list_all is_word_char t \<and> \<not> ci_eq t w'" for t
    using replacement_tokens_free w' by blast
  have two: "re_sub w' r' (t1 @ CHR ''*'' # t2) = t1 @ CHR ''*'' # t2"
    if "t1 \<in> set ?toks" "t2 \<in> set ?toks" for t1 t2
    using re_sub_masked_two[OF wf] free[OF that(1)] free[OF that(2)] by blast
  have three: "re_sub w' r' (t1 @ CHR ''*'' # t2 @ CHR ''*'' # t3) = t1 @ CHR ''*'' # t2 @ CHR ''*'' # t3"
    if "t1 \<in> set ?toks" "t2 \<in> set ?toks" "t3 \<in> set ?toks" for t1 t2 t3
    using re_sub_masked_three[OF wf] free[OF that(1)] free[OF that(2)] free[OF that(3)] by blast
  have "list_all (\<lambda>x. re_sub w' r' x = x) (map snd replacements)"
    unfolding replacements_def
    using two[of "''Ki''" "''ll''"]
      two[of "''Ki''" "''lls''"]
      two[of "''Kil''" "''led''"]
      two[of "''Mu''" "''rder''"]
      two[of "''Mu''" "''rders''"]
      two[of "''Mur''" "''dered''"]
      three[of "''As''" "''sa''" "''ssinate''"]
      three[of "''As''" "''sa''" "''ssinates''"]
      three[of "''As''" "''sa''" "''ssinated''"]
      two[of "''St''" "''ab''"]
      two[of "''St''" "''abs''"]
      two[of "''St''" "''abbed''"]
      two[of "''Sl''" "''aughter''"]
      two[of "''Sl''" "''aughters''"]
      two[of "''Sl''" "''aughtered''"]
      two[of "''Ra''" "''pe''"]
      two[of "''Ra''" "''pes''"]
      two[of "''Ra''" "''ped''"]
      two[of "''Ga''" "''za''"]
      two[of "''Isr''" "''ael''"]
      three[of "''Pa''" "''le''" "''stine''"]
    by simp
  then show ?thesis using r by (force simp: list_all_iff)
qed

lemma sanitize_text_apply: "sanitize_text s = apply_rules replacements s"
  using apply_rules_empty[OF replacements_well_formed] by (simp add: sanitize_text_def)

lemma sanitize_text_append:
  "starts_outside_word b \<or> ends_outside_word a \<Longrightarrow>
   sanitize_text (a @ b) = sanitize_text a @ sanitize_text b"
  unfolding sanitize_text_apply by (rule apply_rules_append[OF replacements_well_formed])

lemma apply_rules_starts_outside:
  "well_formed_rules rules \<Longrightarrow> starts_outside_word s \<Longrightarrow> starts_outside_word (apply_rules rules s)"
proof (induction rules arbitrary: s)
  case Nil
  then show ?case by (simp add: apply_rules_Nil)
next
  case (Cons rule rules)
  obtain w r where rule: "rule = (w, r)" by (cases rule)
  have w: "list_all is_word_char w" "w \<noteq> []" and rest: "well_formed_rules rules"
    using Cons.prems(1) rule by (simp_all add: well_formed_rules_def)
  show ?case
    unfolding rule apply_rules_Cons
    by (rule Cons.IH[OF rest re_sub_starts_outside[OF w Cons.prems(2)]])
qed

lemma replacements_all_fixed:
  "list_all (\<lambda>(w, r). list_all (\<lambda>(w', r'). re_sub w' r' r = r) replacements) replacements"
  unfolding list_all_iff using replacement_fixed by blast

lemma sanitize_text_token:
  "list_all is_word_char t \<Longrightarrow>
   sanitize_text t = (case find (\<lambda>(w, r). ci_eq t w) replacements of None \<Rightarrow> t | Some (w, r) \<Rightarrow> r)"
  unfolding sanitize_text_apply
  by (rule apply_rules_token[OF _ replacements_well_formed replacements_all_fixed])

lemma sanitize_text_replacement: "(w, r) \<in> set replacements \<Longrightarrow> sanitize_text r = r"
  unfolding sanitize_text_apply
  using replacement_fixed by (intro apply_rules_fixed) (auto simp: list_all_iff)

lemma sanitize_text_token_idem:
  assumes "list_all is_word_char t"
  shows "sanitize_text (sanitize_text t) = sanitize_text t"
proof (cases "find (\<lambda>(w, r). ci_eq t w) replacements")
  case None
  then show ?thesis using sanitize_text_token[OF assms] by simp
next
  case (Some rule)
  obtain w r where rule: "rule = (w, r)" by (cases rule)
  have "(w, r) \<in> set replacements" using Some rule by (metis find_Some_iff nth_mem)
  then have "sanitize_text r = r" by (rule sanitize_text_replacement)
  moreover have "sanitize_text t = r" using sanitize_text_token[OF assms] Some rule by simp
  ultimately show ?thesis by simp
qed

lemma sanitize_text_nonword_Cons:
  assumes "\<not> is_word_char c"
  shows "sanitize_text (c # s) = c # sanitize_text s"
proof -
  have "sanitize_text ([c] @ s) = sanitize_text [c] @ sanitize_text s"
    using assms by (intro sanitize_text_append) (simp add: ends_outside_word_def)
  moreover have "sanitize_text [c] = [c]"
    unfolding sanitize_text_apply
    by (rule apply_rules_nonword_single[OF replacements_well_formed assms])
  ultimately show ?thesis by simp
qed

lemma sanitize_text_idem: "sanitize_text (sanitize_text s) = sanitize_text s"
proof (induction "length s" arbitrary: s rule: less_induct)
  case less
  show ?case
  proof (cases s)
    case Nil
    then show ?thesis by (simp add: sanitize_text_def)
  next
    case (Cons c cs)
    show ?thesis
    proof (cases "is_word_char c")
      case False
      have "sanitize_text (sanitize_text cs) = sanitize_text cs"
        using less.hyps[of cs] Cons by simp
      then show ?thesis using Cons False by (simp add: sanitize_text_nonword_Cons)
    next
      case True
      define t where "t = takeWhile is_word_char s"
      define rest where "rest = dropWhile is_word_char s"
      have s: "s = t @ rest" by (simp add: t_def rest_def)
      have t: "list_all is_word_char t"
        unfolding t_def list_all_iff using set_takeWhileD by fastforce
      have "t \<noteq> []" using True Cons by (simp add: t_def)
      then have short: "length rest < length s" using s by simp
      have out: "starts_outside_word rest"
        unfolding starts_outside_word_def rest_def using hd_dropWhile by blast
      have out': "starts_outside_word (sanitize_text rest)"
        unfolding sanitize_text_apply
        by (rule apply_rules_starts_outside[OF replacements_well_formed out])
      have "sanitize_text s = sanitize_text t @ sanitize_text rest"
        unfolding s using out by (intro sanitize_text_append) simp
      moreover have "sanitize_text (sanitize_text t @ sanitize_text rest) =
          sanitize_text (sanitize_text t) @ sanitize_text (sanitize_text rest)"
        using out' by (intro sanitize_text_append) simp
      ultimately show ?thesis
        using sanitize_text_token_idem[OF t] less.hyps[OF short] by simp
    qed
  qed
qed

lemma triggers_lower: "list_all (\<lambda>(w, r). map py_lower w = w) replacements"
  by (simp add: replacements_def py_lower_letters)

lemma lower_trigger: "(w, r) \<in> set replacements \<Longrightarrow> map py_lower w = w"
  using triggers_lower unfolding list_all_iff by blast

lemma triggers_distinct:
  "list_all (\<lambda>(w, r). find (\<lambda>(w', r'). w = w') replacements = Some (w, r)) replacements"
  by (simp add: replacements_def)

lemma find_trigger:
  assumes "(w, r) \<in> set replacements" "ci_eq t w"
  shows "find (\<lambda>(w, r). ci_eq t w) replacements = Some (w, r)"
proof -
  have tw: "map py_lower t = w" using assms(2) lower_trigger[OF assms(1)] by (simp add: ci_eq_def)
  have eq: "ci_eq t w' = (w = w')" if "(w', r') \<in> set replacements" for w' r'
    using tw lower_trigger[OF that] by (simp add: ci_eq_def)
  have "find (\<lambda>(w', r'). ci_eq t w') replacements = find (\<lambda>(w', r'). w = w') replacements"
  proof (rule find_cong)
    show "replacements = replacements" by simp
  next
    fix x assume x: "x \<in> set replacements"
    obtain a b where ab: "x = (a, b)" by (cases x)
    show "(case x of (w', r') \<Rightarrow> ci_eq t w') = (case x of (w', r') \<Rightarrow> w = w')"
      using eq[of a b] x ab by simp
  qed
  also have "\<dots> = Some (w, r)"
    using triggers_distinct assms(1) unfolding list_all_iff by blast
  finally show ?thesis .
qed

text \<open>
  Claim C6. In a text \<open>pre @ t @ post\<close> where \<open>t\<close> is a whole token (a run of word
  characters with no word character next to it on either side), \<open>sanitize_text\<close>
  replaces \<open>t\<close> by a rule's replacement exactly when \<open>t\<close> is that rule's word up to
  letter case, whatever the case of its letters, and otherwise leaves \<open>t\<close> as it is;
  and a rule whose word is shorter than the token (so that the word can only occur as a
  proper part of it) does not rewrite the token.
\<close>

theorem sanitize_masks_whole_words_only:
  assumes "ends_outside_word pre" and "starts_outside_word post" and "list_all is_word_char t"
  shows "sanitize_text (pre @ t @ post) =
           sanitize_text pre @
           (case find (\<lambda>(w, r). ci_eq t w) replacements of None \<Rightarrow> t | Some (w, r) \<Rightarrow> r) @
           sanitize_text post
       \<and> ((w, r) \<in> set replacements \<and> ci_eq t w \<longrightarrow>
           sanitize_text (pre @ t @ post) = sanitize_text pre @ r @ sanitize_text post)
       \<and> ((w, r) \<in> set replacements \<and> length w < length t \<longrightarrow>
           re_sub w r (pre @ t @ post) = re_sub w r pre @ t @ re_sub w r post)"
proof -
  have tp: "starts_outside_word (t @ post) \<or> ends_outside_word pre" using assms(1) by simp
  have split: "sanitize_text (pre @ t @ post) = sanitize_text pre @ sanitize_text t @ sanitize_text post"
    using sanitize_text_append[OF tp] sanitize_text_append[of post t] assms(2) by simp
  have first: "sanitize_text (pre @ t @ post) =
           sanitize_text pre @
           (case find (\<lambda>(w, r). ci_eq t w) replacements of None \<Rightarrow> t | Some (w, r) \<Rightarrow> r) @
           sanitize_text post"
    using split sanitize_text_token[OF assms(3)] by simp
  have second: "sanitize_text (pre @ t @ post) = sanitize_text pre @ r @ sanitize_text post"
    if "(w, r) \<in> set replacements" "ci_eq t w"
    using first find_trigger[OF that] by simp
  have third: "re_sub w r (pre @ t @ post) = re_sub w r pre @ t @ re_sub w r post"
    if "(w, r) \<in> set replacements" "length w < length t"
  proof -
    have w: "list_all is_word_char w" "w \<noteq> []" using rules_wordy[OF that(1)] by simp_all
    have "\<not> ci_eq t w" using that(2) ci_eq_length by fastforce
    then have tok: "re_sub w r t = t" using re_sub_token[OF w assms(3)] by simp
    have "re_sub w r (pre @ t @ post) = re_sub w r pre @ re_sub w r (t @ post)"
      using assms(1) by (intro re_sub_append[OF w]) (auto simp: ends_outside_word_def)
    moreover have "re_sub w r (t @ post) = re_sub w r t @ re_sub w r post"
      using assms(2) by (intro re_sub_append[OF w]) (auto simp: starts_outside_word_def)
    ultimately show ?thesis using tok by simp
  qed
  show ?thesis using first second third by blast
qed

theorem sanitize_masks_whole_words_only_witness:
  "ends_outside_word ''Two '' \<and> starts_outside_word '', one hurt'' \<and> list_all is_word_char ''KILLED''
   \<and> (''killed'', ''Kil*led'') \<in> set replacements \<and> ci_eq ''KILLED'' ''killed''
   \<and> sanitize_text ''Two KILLED, one hurt'' = sanitize_text ''Two '' @ ''Kil*led'' @ sanitize_text '', one hurt''
   \<and> list_all is_word_char ''skills'' \<and> (''kill'', ''Ki*ll'') \<in> set replacements
   \<and> length ''kill'' < length ''skills''
   \<and> re_sub ''kill'' ''Ki*ll'' ''Two skills, one hurt'' =
       re_sub ''kill'' ''Ki*ll'' ''Two '' @ ''skills'' @ re_sub ''kill'' ''Ki*ll'' '', one hurt''"
proof -
  have pre: "ends_outside_word ''Two ''"
    by (simp add: ends_outside_word_def is_word_char_def isalnum_def)
  have post: "starts_outside_word '', one hurt''"
    by (simp add: starts_outside_word_def is_word_char_def isalnum_def)
  have t1: "list_all is_word_char ''KILLED''" by (simp add: is_word_char_def isalnum_def)
  have t2: "list_all is_word_char ''skills''" by (simp add: is_word_char_def isalnum_def)
  have m1: "(''killed'', ''Kil*led'') \<in> set replacements" by (simp add: replacements_def)
  have m2: "(''kill'', ''Ki*ll'') \<in> set replacements" by (simp add: replacements_def)
  have c1: "ci_eq ''KILLED'' ''killed''" by (simp add: ci_eq_def py_lower_def char_of_eq_iff)
  have l2: "length ''kill'' < length ''skills''" by simp
  have "sanitize_text (''Two '' @ ''KILLED'' @ '', one hurt'') =
        sanitize_text ''Two '' @ ''Kil*led'' @ sanitize_text '', one hurt''"
    using sanitize_masks_whole_words_only[OF pre post t1, of "''killed''" "''Kil*led''"] m1 c1
    by blast
  then have a: "sanitize_text ''Two KILLED, one hurt'' =
        sanitize_text ''Two '' @ ''Kil*led'' @ sanitize_text '', one hurt''"
    by simp
  have "re_sub ''kill'' ''Ki*ll'' (''Two '' @ ''skills'' @ '', one hurt'') =
       re_sub ''kill'' ''Ki*ll'' ''Two '' @ ''skills'' @ re_sub ''kill'' ''Ki*ll'' '', one hurt''"
    using sanitize_masks_whole_words_only[OF pre post t2, of "''kill''" "''Ki*ll''"] m2 l2
    by blast
  then have b: "re_sub ''kill'' ''Ki*ll'' ''Two skills, one hurt'' =
       re_sub ''kill'' ''Ki*ll'' ''Two '' @ ''skills'' @ re_sub ''kill'' ''Ki*ll'' '', one hurt''"
    by simp
  show ?thesis
    by (intro conjI pre post t1 t2 m1 m2 c1 l2 a b)
qed

text \<open>
  Claim C7. \<open>sanitize_text\<close> is idempotent on every string, and no rule of the table
  changes the replacement string of any rule.
\<close>

theorem sanitize_idempotent:
  "sanitize_text (sanitize_text s) = sanitize_text s \<and>
   list_all (\<lambda>(w, r). list_all (\<lambda>(w', r'). re_sub w' r' r = r) replacements) replacements"
  using sanitize_text_idem replacements_all_fixed by simp

section \<open>Properties of the word-wrap\<close>

declare trim_to_fit.simps [simp del] wrap_loop.simps [simp del] ellipsize.simps [simp del]

lemma wrap_loop_Nil: "wrap_loop wd maxw [] lines cur = ([], lines, cur)"
  by (subst wrap_loop.simps) simp

lemma wrap_loop_full:
  "\<not> length lines < max_lines \<Longrightarrow> wrap_loop wd maxw ws lines cur = (ws, lines, cur)"
  by (subst wrap_loop.simps) (simp split: list.splits)

lemma wrap_loop_fit:
  "length lines < max_lines \<Longrightarrow> wd (test_line cur word) \<le> maxw \<Longrightarrow>
   wrap_loop wd maxw (word # rest) lines cur = wrap_loop wd maxw rest lines (test_line cur word)"
  by (subst wrap_loop.simps) simp

lemma wrap_loop_flush:
  "length lines < max_lines \<Longrightarrow> \<not> wd (test_line cur word) \<le> maxw \<Longrightarrow> cur \<noteq> [] \<Longrightarrow>
   wrap_loop wd maxw (word # rest) lines cur = wrap_loop wd maxw (word # rest) (lines @ [cur]) []"
  by (subst wrap_loop.simps) simp

lemma wrap_loop_hard:
  "length lines < max_lines \<Longrightarrow> \<not> wd (test_line [] word) \<le> maxw \<Longrightarrow>
   wrap_loop wd maxw (word # rest) lines [] =
   wrap_loop wd maxw rest (lines @ [hard_cut wd maxw word]) []"
  by (subst wrap_loop.simps) simp

lemma wrap_loop_bound:
  "wrap_loop wd maxw ws lines cur = (rest, lines', cur') \<Longrightarrow> length lines \<le> max_lines \<Longrightarrow>
   length lines' \<le> max_lines \<and> (rest \<noteq> [] \<longrightarrow> length lines' = max_lines)"
proof (induction wd maxw ws lines cur rule: wrap_loop.induct)
  case (1 wd maxw ws lines cur)
  show ?case
  proof (cases ws)
    case Nil
    then show ?thesis using "1.prems" by (simp add: wrap_loop_Nil)
  next
    case (Cons word ws')
    show ?thesis
    proof (cases "length lines < max_lines")
      case False
      then show ?thesis using "1.prems" by (simp add: wrap_loop_full)
    next
      case True
      show ?thesis
      proof (cases "wd (test_line cur word) \<le> maxw")
        case fit: True
        then show ?thesis
          using "1.IH"(1)[OF Cons _ fit] "1.prems" True Cons by (simp add: wrap_loop_fit)
      next
        case nofit: False
        show ?thesis
        proof (cases "cur = []")
          case False
          then show ?thesis
            using "1.IH"(2)[OF Cons _ nofit] "1.prems" True Cons nofit
            by (simp add: wrap_loop_flush)
        next
          case empty: True
          then show ?thesis
            using "1.IH"(3)[OF Cons _ nofit] "1.prems" True Cons nofit
            by (simp add: wrap_loop_hard)
        qed
      qed
    qed
  qed
qed

lemma ellipsize_shape:
  "\<exists>k. ellipsize wd maxw l = take k l @ ellipsis"
proof (induction wd maxw l rule: ellipsize.induct)
  case (1 wd maxw l)
  show ?case
  proof (cases "wd (l @ ellipsis) \<le> maxw \<or> length l = 0")
    case True
    then have "ellipsize wd maxw l = take (length l) l @ ellipsis"
      by (subst ellipsize.simps) auto
    then show ?thesis by blast
  next
    case False
    then obtain k where "ellipsize wd maxw (butlast l) = take k (butlast l) @ ellipsis"
      using "1.IH" by blast
    moreover have "ellipsize wd maxw l = ellipsize wd maxw (butlast l)"
      using False by (subst ellipsize.simps) simp
    moreover have "take k (butlast l) = take (min k (length l - 1)) l"
      by (simp add: butlast_conv_take min.commute)
    ultimately show ?thesis by metis
  qed
qed

lemma ellipsize_fits:
  "wd (ellipsize wd maxw l) \<le> maxw \<or> ellipsize wd maxw l = ellipsis"
proof (induction wd maxw l rule: ellipsize.induct)
  case (1 wd maxw l)
  show ?case
  proof (cases "wd (l @ ellipsis) \<le> maxw \<or> length l = 0")
    case True
    then show ?thesis by (subst (1 2) ellipsize.simps) auto
  next
    case False
    then have "ellipsize wd maxw l = ellipsize wd maxw (butlast l)"
      by (subst ellipsize.simps) simp
    then show ?thesis using "1.IH" False by simp
  qed
qed

lemma trim_to_fit_shape: "\<exists>k\<le>length w. trim_to_fit wd maxw w = take k w"
proof (induction wd maxw w rule: trim_to_fit.induct)
  case (1 wd maxw hard)
  show ?case
  proof (cases "hard \<noteq> [] \<and> wd hard > maxw")
    case True
    then obtain k where k: "k \<le> length (butlast hard)"
        "trim_to_fit wd maxw (butlast hard) = take k (butlast hard)"
      using "1.IH" by blast
    have "trim_to_fit wd maxw hard = trim_to_fit wd maxw (butlast hard)"
      using True by (subst trim_to_fit.simps) simp
    moreover have "take k (butlast hard) = take k hard"
      using k(1) by (simp add: butlast_conv_take)
    ultimately show ?thesis using k by (intro exI[of _ k]) simp
  next
    case False
    then have "trim_to_fit wd maxw hard = take (length hard) hard"
      by (subst trim_to_fit.simps) auto
    then show ?thesis by blast
  qed
qed

lemma trim_to_fit_fits: "trim_to_fit wd maxw w = [] \<or> wd (trim_to_fit wd maxw w) \<le> maxw"
proof (induction wd maxw w rule: trim_to_fit.induct)
  case (1 wd maxw hard)
  show ?case
  proof (cases "hard \<noteq> [] \<and> wd hard > maxw")
    case True
    then have "trim_to_fit wd maxw hard = trim_to_fit wd maxw (butlast hard)"
      by (subst trim_to_fit.simps) simp
    then show ?thesis using "1.IH" True by simp
  next
    case False
    then have "trim_to_fit wd maxw hard = hard" by (subst trim_to_fit.simps) auto
    then show ?thesis using False by auto
  qed
qed

lemma hard_cut_props:
  assumes "word \<noteq> []"
  shows "\<exists>k. 1 \<le> k \<and> k \<le> length word \<and> hard_cut wd maxw word = take k word \<and>
             (wd (hard_cut wd maxw word) \<le> maxw \<or> k = 1)"
proof -
  obtain k where k: "k \<le> length word" "trim_to_fit wd maxw word = take k word"
    using trim_to_fit_shape by blast
  show ?thesis
  proof (cases "trim_to_fit wd maxw word = []")
    case True
    then have "hard_cut wd maxw word = take 1 word" by (simp add: hard_cut_def)
    then show ?thesis using assms by (intro exI[of _ 1]) (cases word; simp)
  next
    case False
    then have h: "hard_cut wd maxw word = take k word" using k by (simp add: hard_cut_def)
    moreover have "1 \<le> k" using False k by (cases k) auto
    moreover have "wd (hard_cut wd maxw word) \<le> maxw"
      using trim_to_fit_fits[of wd maxw word] False h k by simp
    ultimately show ?thesis using k(1) by blast
  qed
qed

lemma split_words_clean:
  "list_all (\<lambda>c. \<not> sp c) cur \<Longrightarrow> list_all (clean_word sp) (split_words sp cur s)"
proof (induction s arbitrary: cur)
  case Nil
  then show ?case by (simp add: list_all_iff clean_word_def)
next
  case (Cons c cs)
  show ?case
  proof (cases "sp c")
    case True
    have "list_all (clean_word sp) (split_words sp [] cs)" by (rule Cons.IH) simp
    then show ?thesis using True Cons.prems by (simp add: list_all_iff clean_word_def)
  next
    case False
    have "list_all (clean_word sp) (split_words sp (cur @ [c]) cs)"
      by (rule Cons.IH) (use False Cons.prems in simp)
    then show ?thesis using False by simp
  qed
qed

lemma py_split_clean: "list_all (clean_word sp) (py_split sp s)"
  unfolding py_split_def by (rule split_words_clean) simp

lemma py_strip_id:
  assumes "s \<noteq> []" "\<not> sp (hd s)" "\<not> sp (last s)"
  shows "py_strip sp s = s"
proof -
  have "dropWhile sp s = s" using assms(1,2) by (cases s) auto
  moreover have "dropWhile sp (rev s) = rev s"
    using assms(1,3) by (cases s rule: rev_cases) auto
  ultimately show ?thesis by (simp add: py_strip_def)
qed

lemma space_is_space: "isspace_cp 32"
  by (simp add: isspace_cp_def)

lemma clean_word_ends:
  "clean_word sp w \<Longrightarrow> \<not> sp (hd w) \<and> \<not> sp (last w)"
  by (auto simp: clean_word_def list_all_iff)

lemma test_line_first:
  assumes "clean_word isspace_cp w"
  shows "test_line [] w = w"
proof -
  have "py_strip isspace_cp (32 # w) = py_strip isspace_cp w"
    by (simp add: py_strip_def space_is_space)
  moreover have "py_strip isspace_cp w = w"
    using assms clean_word_ends[OF assms] by (intro py_strip_id) (auto simp: clean_word_def)
  ultimately show ?thesis by (simp add: test_line_def)
qed

lemma test_line_next:
  assumes "cur \<noteq> []" "\<not> isspace_cp (hd cur)" "clean_word isspace_cp w"
  shows "test_line cur w = cur @ [32] @ w"
  unfolding test_line_def
  using assms clean_word_ends[OF assms(3)]
  by (intro py_strip_id) (auto simp: clean_word_def)

lemma foldl_test_line_join:
  "acc \<noteq> [] \<Longrightarrow> \<not> isspace_cp (hd acc) \<Longrightarrow> list_all (clean_word isspace_cp) ws \<Longrightarrow>
   foldl test_line acc ws = foldl (\<lambda>acc x. acc @ [32] @ x) acc ws"
proof (induction ws arbitrary: acc)
  case Nil
  then show ?case by simp
next
  case (Cons w ws)
  have step: "test_line acc w = acc @ [32] @ w"
    using Cons.prems by (intro test_line_next) simp_all
  have "foldl test_line (acc @ [32] @ w) ws = foldl (\<lambda>acc x. acc @ [32] @ x) (acc @ [32] @ w) ws"
    using Cons.prems by (intro Cons.IH) simp_all
  then show ?case using step by simp
qed

lemma foldl_test_line:
  assumes "list_all (clean_word isspace_cp) ws"
  shows "foldl test_line [] ws = join_words ws"
proof (cases ws)
  case Nil
  then show ?thesis by (simp add: join_words_def)
next
  case (Cons w rest)
  have w: "clean_word isspace_cp w" and rest: "list_all (clean_word isspace_cp) rest"
    using assms Cons by simp_all
  have "foldl test_line w rest = foldl (\<lambda>acc x. acc @ [32] @ x) w rest"
    using w rest clean_word_ends[OF w] by (intro foldl_test_line_join) (auto simp: clean_word_def)
  then show ?thesis using Cons test_line_first[OF w] by (simp add: join_words_def)
qed

lemma wrap_loop_all_fit:
  "(\<And>k. 1 \<le> k \<Longrightarrow> k \<le> length ws \<Longrightarrow> wd (foldl test_line cur (take k ws)) \<le> maxw) \<Longrightarrow>
   wrap_loop wd maxw ws [] cur = ([], [], foldl test_line cur ws)"
proof (induction ws arbitrary: cur)
  case Nil
  then show ?case by (simp add: wrap_loop_Nil)
next
  case (Cons w ws)
  have fit: "wd (test_line cur w) \<le> maxw" using Cons.prems[of 1] by simp
  have "wd (foldl test_line (test_line cur w) (take k ws)) \<le> maxw"
    if "1 \<le> k" "k \<le> length ws" for k
    using Cons.prems[of "Suc k"] that by simp
  then have "wrap_loop wd maxw ws [] (test_line cur w) = ([], [], foldl test_line (test_line cur w) ws)"
    by (rule Cons.IH)
  then show ?case using fit by (simp add: wrap_loop_fit max_lines_def)
qed

lemma join_words_nonempty:
  assumes "list_all (clean_word isspace_cp) ws" "ws \<noteq> []"
  shows "join_words ws \<noteq> []"
proof -
  obtain w rest where ws: "ws = w # rest" using assms(2) by (cases ws) auto
  have "foldl (\<lambda>acc x. acc @ [32] @ x) a rest \<noteq> []" if "a \<noteq> []" for a
    using that by (induction rest arbitrary: a) auto
  then show ?thesis using assms(1) ws by (simp add: join_words_def clean_word_def)
qed

lemma title_lines_one_line:
  assumes ws: "py_split isspace_cp title \<noteq> []"
    and fit: "\<And>k. 1 \<le> k \<Longrightarrow> k \<le> length (py_split isspace_cp title) \<Longrightarrow>
              wd (join_words (take k (py_split isspace_cp title))) \<le> maxw"
  shows "title_lines wd maxw title = [join_words (py_split isspace_cp title)]"
proof -
  let ?ws = "py_split isspace_cp title"
  have clean: "list_all (clean_word isspace_cp) ?ws" by (rule py_split_clean)
  have "wd (foldl test_line [] (take k ?ws)) \<le> maxw" if "1 \<le> k" "k \<le> length ?ws" for k
  proof -
    have "list_all (clean_word isspace_cp) (take k ?ws)"
      using clean by (simp add: list_all_iff) (meson in_set_takeD)
    then show ?thesis using fit[OF that] by (simp add: foldl_test_line)
  qed
  then have "wrap_loop wd maxw ?ws [] [] = ([], [], foldl test_line [] ?ws)"
    by (rule wrap_loop_all_fit)
  then have "wrap_loop wd maxw ?ws [] [] = ([], [], join_words ?ws)"
    using clean by (simp add: foldl_test_line)
  then show ?thesis
    using join_words_nonempty[OF clean ws] by (simp add: title_lines_def max_lines_def)
qed

lemma title_lines_length: "length (title_lines wd maxw title) \<le> max_lines"
proof -
  obtain rest lines cur where w: "wrap_loop wd maxw (py_split isspace_cp title) [] [] = (rest, lines, cur)"
    by (metis prod_cases3)
  have "length lines \<le> max_lines" using wrap_loop_bound[OF w] by simp
  then show ?thesis using w by (auto simp: title_lines_def Let_def)
qed

lemma title_lines_truncated:
  assumes w: "wrap_loop wd maxw (py_split isspace_cp title) [] [] = (rest, lines, cur)"
    and rest: "rest \<noteq> []"
  shows "length lines = max_lines"
    and "title_lines wd maxw title = butlast lines @ [ellipsize wd maxw (last lines)]"
proof -
  show len: "length lines = max_lines" using wrap_loop_bound[OF w] rest by simp
  then have "lines \<noteq> []" by (auto simp: max_lines_def)
  then show "title_lines wd maxw title = butlast lines @ [ellipsize wd maxw (last lines)]"
    using w rest len by (simp add: title_lines_def)
qed

text \<open>
  Claim C1, as the code has it. For every title and every width metric: the word-wrap
  yields at most 3 lines. A title with at least one word, every space-joined prefix of
  whose words fits the column, yields exactly one line, the words joined by single
  spaces. When words are left over after the loop, three lines are filled, the title
  has exactly three lines, and the last one is a prefix of the third line followed by
  the marker; it fits the column unless it is the marker alone. A word wider than the
  column that starts a line is cut to a non-empty prefix of itself, which fits the
  column unless it is the single first character; a title made of that one word yields
  that one line.
\<close>

theorem title_lines_wrap:
  "length (title_lines wd maxw title) \<le> 3
   \<and> (py_split isspace_cp title \<noteq> [] \<and>
       (\<forall>k. 1 \<le> k \<and> k \<le> length (py_split isspace_cp title) \<longrightarrow>
            wd (join_words (take k (py_split isspace_cp title))) \<le> maxw) \<longrightarrow>
       title_lines wd maxw title = [join_words (py_split isspace_cp title)])
   \<and> (wrap_loop wd maxw (py_split isspace_cp title) [] [] = (rest, lines, cur) \<and> rest \<noteq> [] \<longrightarrow>
       length lines = 3 \<and> length (title_lines wd maxw title) = 3 \<and>
       (\<exists>k. last (title_lines wd maxw title) = take k (last lines) @ ellipsis) \<and>
       (wd (last (title_lines wd maxw title)) \<le> maxw \<or> last (title_lines wd maxw title) = ellipsis))
   \<and> (clean_word isspace_cp word \<and> maxw < wd word \<longrightarrow>
       (length lines0 < 3 \<longrightarrow>
          wrap_loop wd maxw (word # ws) lines0 [] =
          wrap_loop wd maxw ws (lines0 @ [hard_cut wd maxw word]) []) \<and>
       (py_split isspace_cp title = [word] \<longrightarrow> title_lines wd maxw title = [hard_cut wd maxw word]) \<and>
       (\<exists>k. 1 \<le> k \<and> k \<le> length word \<and> hard_cut wd maxw word = take k word \<and>
            (wd (hard_cut wd maxw word) \<le> maxw \<or> k = 1)))"
proof -
  have one: "length (title_lines wd maxw title) \<le> 3"
    using title_lines_length[of wd maxw title] by (simp add: max_lines_def)
  have two: "title_lines wd maxw title = [join_words (py_split isspace_cp title)]"
    if "py_split isspace_cp title \<noteq> []"
      "\<forall>k. 1 \<le> k \<and> k \<le> length (py_split isspace_cp title) \<longrightarrow>
            wd (join_words (take k (py_split isspace_cp title))) \<le> maxw"
    using that by (intro title_lines_one_line) simp_all
  have three: "length lines = 3 \<and> length (title_lines wd maxw title) = 3 \<and>
       (\<exists>k. last (title_lines wd maxw title) = take k (last lines) @ ellipsis) \<and>
       (wd (last (title_lines wd maxw title)) \<le> maxw \<or> last (title_lines wd maxw title) = ellipsis)"
    if w: "wrap_loop wd maxw (py_split isspace_cp title) [] [] = (rest, lines, cur)" and r: "rest \<noteq> []"
  proof -
    note t = title_lines_truncated[OF w r]
    have l: "last (title_lines wd maxw title) = ellipsize wd maxw (last lines)" using t(2) by simp
    show ?thesis
      using t l ellipsize_shape[of wd maxw "last lines"] ellipsize_fits[of wd maxw "last lines"]
      by (simp add: max_lines_def)
  qed
  have four: "(length lines0 < 3 \<longrightarrow>
          wrap_loop wd maxw (word # ws) lines0 [] =
          wrap_loop wd maxw ws (lines0 @ [hard_cut wd maxw word]) []) \<and>
       (py_split isspace_cp title = [word] \<longrightarrow> title_lines wd maxw title = [hard_cut wd maxw word]) \<and>
       (\<exists>k. 1 \<le> k \<and> k \<le> length word \<and> hard_cut wd maxw word = take k word \<and>
            (wd (hard_cut wd maxw word) \<le> maxw \<or> k = 1))"
    if c: "clean_word isspace_cp word" and wide: "maxw < wd word"
  proof -
    have nofit: "\<not> wd (test_line [] word) \<le> maxw" using wide test_line_first[OF c] by simp
    have step: "wrap_loop wd maxw (word # ws') l [] =
          wrap_loop wd maxw ws' (l @ [hard_cut wd maxw word]) []" if "length l < 3" for l ws'
      using that nofit by (intro wrap_loop_hard) (simp_all add: max_lines_def)
    have ne: "word \<noteq> []" using c by (simp add: clean_word_def)
    have hc: "hard_cut wd maxw word \<noteq> []"
      using hard_cut_props[OF ne, of wd maxw] ne by (cases word) auto
    have single: "title_lines wd maxw title = [hard_cut wd maxw word]"
      if "py_split isspace_cp title = [word]"
      using that step[of "[]" "[]"] hc by (simp add: title_lines_def wrap_loop_Nil max_lines_def)
    show ?thesis using step single hard_cut_props[OF ne, of wd maxw] by blast
  qed
  show ?thesis using one two three four by blast
qed

lemmas wrap_eval =
  title_lines_def py_split_def py_strip_def test_line_def ustr_def isspace_cp_def max_lines_def
  hard_cut_def fixed_pitch_def ellipsis_def join_words_def wrap_loop.simps trim_to_fit.simps
  ellipsize.simps clean_word_def

theorem title_lines_wrap_witness:
  "title_lines (fixed_pitch 10) 100 (ustr ''a b c'') = [ustr ''a b c'']
   \<and> title_lines (fixed_pitch 10) 100 (ustr ''aaaaaaaa bbbbbbbb cccccccc dddddddd'') =
       [ustr ''aaaaaaaa'', ustr ''bbbbbbbb'', ustr ''ccccccc'' @ ellipsis]
   \<and> fixed_pitch 10 (ustr ''ccccccc'' @ ellipsis) \<le> 100
   \<and> title_lines (fixed_pitch 10) 100 (ustr ''Thiruvananthapuram'') = [ustr ''Thiruvanan'']"
proof -
  let ?wd = "fixed_pitch 10"
  let ?t1 = "ustr ''a b c''"
  let ?t2 = "ustr ''aaaaaaaa bbbbbbbb cccccccc dddddddd''"
  let ?t3 = "ustr ''Thiruvananthapuram''"
  have s1: "py_split isspace_cp ?t1 = [ustr ''a'', ustr ''b'', ustr ''c'']" by (simp add: wrap_eval)
  have fits: "\<forall>k. 1 \<le> k \<and> k \<le> length (py_split isspace_cp ?t1) \<longrightarrow>
      ?wd (join_words (take k (py_split isspace_cp ?t1))) \<le> 100"
  proof (intro allI impI)
    fix k :: nat
    assume "1 \<le> k \<and> k \<le> length (py_split isspace_cp ?t1)"
    then have "k = 1 \<or> k = 2 \<or> k = 3" unfolding s1 by auto
    then show "?wd (join_words (take k (py_split isspace_cp ?t1))) \<le> 100"
      unfolding s1 by (auto simp: wrap_eval eval_nat_numeral)
  qed
  have a: "title_lines ?wd 100 ?t1 = [ustr ''a b c'']"
    using title_lines_wrap[of ?wd 100 ?t1] fits s1 by (simp add: wrap_eval)
  have w2: "wrap_loop ?wd 100 (py_split isspace_cp ?t2) [] [] =
      ([ustr ''dddddddd''], [ustr ''aaaaaaaa'', ustr ''bbbbbbbb'', ustr ''cccccccc''], [])"
    by (simp add: wrap_eval)
  have b: "title_lines ?wd 100 ?t2 = [ustr ''aaaaaaaa'', ustr ''bbbbbbbb'', ustr ''ccccccc'' @ ellipsis]"
    by (simp add: wrap_eval)
  have c: "?wd (ustr ''ccccccc'' @ ellipsis) \<le> 100" by (simp add: wrap_eval)
  have s3: "py_split isspace_cp ?t3 = [?t3]" by (simp add: wrap_eval)
  have c3: "clean_word isspace_cp ?t3" by (simp add: wrap_eval)
  have wide: "100 < ?wd ?t3" by (simp add: wrap_eval)
  have h3: "hard_cut ?wd 100 ?t3 = ustr ''Thiruvanan''" by (simp add: wrap_eval)
  have d: "title_lines ?wd 100 ?t3 = [ustr ''Thiruvanan'']"
    using title_lines_wrap[of ?wd 100 ?t3 _ _ _ ?t3] s3 c3 wide h3 by simp
  have "length (title_lines ?wd 100 ?t2) = 3"
    using title_lines_wrap[of ?wd 100 ?t2 "[ustr ''dddddddd'']"
        "[ustr ''aaaaaaaa'', ustr ''bbbbbbbb'', ustr ''cccccccc'']" "[]"] w2 by simp
  then show ?thesis using a b c d by simp
qed

theorem title_lines_counterexample:
  "title_lines (fixed_pitch 10) 5 (ustr ''ab cd ef gh'') = [ustr ''a'', ustr ''c'', ellipsis]
   \<and> \<not> fixed_pitch 10 (ustr ''a'') \<le> 5
   \<and> \<not> fixed_pitch 10 ellipsis \<le> 5
   \<and> fixed_pitch 10 [] \<le> 5
   \<and> title_lines (fixed_pitch 10) 5 [] = []"
  by (simp add: wrap_eval)

section \<open>Properties of the validator and the resolver\<close>

text \<open>
  Claim C2. Whenever the fetched body decodes to an image with width below 400 or height
  below 250, \<open>download_and_validate_image\<close> returns \<open>None\<close>; for a body fetched with
  status 200 that decodes to an image of width at least 400 and height at least 250 it
  returns that body; and its result is a function of what the fetch returns and of the
  decoder alone: no stage, page or URL resolution enters it.
\<close>

theorem validator_floor:
  "(fetch w url = Some resp \<and> decode w (content resp) = Some (width_px, height_px) \<and>
      (width_px < 400 \<or> height_px < 250) \<longrightarrow> download_and_validate_image w url = None)
   \<and> (fetch w url = Some resp \<and> status_code resp = 200 \<and>
      decode w (content resp) = Some (width_px, height_px) \<and> 400 \<le> width_px \<and> 250 \<le> height_px \<longrightarrow>
      download_and_validate_image w url = Some (content resp))
   \<and> (fetch w url = fetch w' url' \<and> decode w = decode w' \<longrightarrow>
      download_and_validate_image w url = download_and_validate_image w' url')"
  by (auto simp: download_and_validate_image_def split: option.splits)

theorem validator_floor_witness:
  "download_and_validate_image demo_world ''small.jpg'' = None
   \<and> download_and_validate_image demo_world ''big.jpg'' = Some ''BIG''
   \<and> download_and_validate_image demo_world ''big.jpg'' =
       download_and_validate_image (demo_world\<lparr>render := (\<lambda>u. Some \<lparr>metas = [], ld_json = [], imgs = []\<rparr>)\<rparr>) ''big.jpg''"
proof -
  have f1: "fetch demo_world ''small.jpg'' = Some \<lparr>status_code = 200, content = ''SMALL''\<rparr>"
    by (simp add: demo_world_def)
  have d1: "decode demo_world (content \<lparr>status_code = 200, content = ''SMALL''\<rparr>) = Some (399, 250)"
    by (simp add: demo_world_def)
  have f2: "fetch demo_world ''big.jpg'' = Some \<lparr>status_code = 200, content = ''BIG''\<rparr>"
    by (simp add: demo_world_def)
  have d2: "decode demo_world (content \<lparr>status_code = 200, content = ''BIG''\<rparr>) = Some (400, 250)"
    by (simp add: demo_world_def)
  have a: "download_and_validate_image demo_world ''small.jpg'' = None"
    using validator_floor[of demo_world "''small.jpg''" "\<lparr>status_code = 200, content = ''SMALL''\<rparr>" 399 250]
      f1 d1 by simp
  have b: "download_and_validate_image demo_world ''big.jpg'' = Some ''BIG''"
    using validator_floor[of demo_world "''big.jpg''" "\<lparr>status_code = 200, content = ''BIG''\<rparr>" 400 250]
      f2 d2 by simp
  have c: "download_and_validate_image demo_world ''big.jpg'' =
       download_and_validate_image (demo_world\<lparr>render := (\<lambda>u. Some \<lparr>metas = [], ld_json = [], imgs = []\<rparr>)\<rparr>) ''big.jpg''"
    using validator_floor[of demo_world "''big.jpg''" _ _ _
        "demo_world\<lparr>render := (\<lambda>u. Some \<lparr>metas = [], ld_json = [], imgs = []\<rparr>)\<rparr>" "''big.jpg''"]
    by simp
  show ?thesis using a b c by blast
qed

lemma first_image_Some_iff:
  "first_image f xs = Some img \<longleftrightarrow>
     (\<exists>i<length xs. f (xs ! i) = Some img \<and> (\<forall>j<i. f (xs ! j) = None))"
proof (induction xs)
  case Nil
  then show ?case by simp
next
  case (Cons x xs)
  show ?case
  proof (cases "f x")
    case None
    have "(\<exists>i<length (x # xs). f ((x # xs) ! i) = Some img \<and> (\<forall>j<i. f ((x # xs) ! j) = None)) \<longleftrightarrow>
          (\<exists>i<length xs. f (xs ! i) = Some img \<and> (\<forall>j<i. f (xs ! j) = None))"
    proof
      assume "\<exists>i<length (x # xs). f ((x # xs) ! i) = Some img \<and> (\<forall>j<i. f ((x # xs) ! j) = None)"
      then obtain i where i: "i < length (x # xs)" "f ((x # xs) ! i) = Some img"
          "\<forall>j<i. f ((x # xs) ! j) = None" by blast
      then obtain i' where i': "i = Suc i'" using None by (cases i) auto
      have "\<forall>j<i'. f (xs ! j) = None" using i(3) i' by auto
      then show "\<exists>i<length xs. f (xs ! i) = Some img \<and> (\<forall>j<i. f (xs ! j) = None)"
        using i i' by auto
    next
      assume "\<exists>i<length xs. f (xs ! i) = Some img \<and> (\<forall>j<i. f (xs ! j) = None)"
      then obtain i where i: "i < length xs" "f (xs ! i) = Some img" "\<forall>j<i. f (xs ! j) = None"
        by blast
      have "\<forall>j<Suc i. f ((x # xs) ! j) = None" using i(3) None by (auto simp: less_Suc_eq_0_disj)
      then show "\<exists>i<length (x # xs). f ((x # xs) ! i) = Some img \<and> (\<forall>j<i. f ((x # xs) ! j) = None)"
        using i by (intro exI[of _ "Suc i"]) auto
    qed
    then show ?thesis using None Cons.IH by simp
  next
    case (Some a)
    have "(\<exists>i<length (x # xs). f ((x # xs) ! i) = Some img \<and> (\<forall>j<i. f ((x # xs) ! j) = None)) \<longleftrightarrow> a = img"
    proof
      assume "\<exists>i<length (x # xs). f ((x # xs) ! i) = Some img \<and> (\<forall>j<i. f ((x # xs) ! j) = None)"
      then obtain i where i: "f ((x # xs) ! i) = Some img" "\<forall>j<i. f ((x # xs) ! j) = None" by blast
      have "i = 0" using i(2) Some by (cases i) auto
      then show "a = img" using i(1) Some by simp
    next
      assume "a = img"
      then show "\<exists>i<length (x # xs). f ((x # xs) ! i) = Some img \<and> (\<forall>j<i. f ((x # xs) ! j) = None)"
        using Some by (intro exI[of _ 0]) simp
    qed
    then show ?thesis using Some by simp
  qed
qed

lemma validate_render_update:
  "download_and_validate_image (w\<lparr>render := r\<rparr>) u = download_and_validate_image w u"
  by (auto simp: download_and_validate_image_def split: option.splits)

lemma try_url_render_update: "try_url (w\<lparr>render := r\<rparr>) u = try_url w u"
  by (auto simp: try_url_def validate_render_update split: option.splits)

lemma make_absolute_render_update:
  "make_absolute (w\<lparr>render := r\<rparr>) base u = make_absolute w base u"
  by (auto simp: make_absolute_def split: option.splits)

lemma meta_url_metas:
  "metas pg' = metas pg \<Longrightarrow> meta_url (w\<lparr>render := r\<rparr>) article_url pg' p = meta_url w article_url pg p"
  by (auto simp: meta_url_def find_meta_def make_absolute_render_update split: option.splits)

lemma meta_stage_metas:
  "metas pg' = metas pg \<Longrightarrow> meta_stage (w\<lparr>render := r\<rparr>) article_url pg' = meta_stage w article_url pg"
  by (simp add: meta_stage_def meta_url_metas try_url_render_update)

text \<open>
  Claim C3. When the meta-tag stage of a page yields an image (the first of the four
  meta tags, in order, whose URL is present, not logo-like and accepted by the
  validator), the resolver returns that image, and it returns the same image for every
  page with the same \<open><meta>\<close> elements, whatever its JSON-LD scripts and \<open><img>\<close>
  elements are: an inline candidate of any score, or a script on which the second stage
  would raise, changes nothing.
\<close>

theorem meta_stage_priority:
  "(render w article_url = Some pg \<and> meta_stage w article_url pg = Some img \<longrightarrow>
      fetch_article_image w article_url = Some img \<and>
      (\<forall>pg'. metas pg' = metas pg \<longrightarrow>
         fetch_article_image (w\<lparr>render := (render w)(article_url := Some pg')\<rparr>) article_url = Some img))
   \<and> (meta_stage w article_url pg = Some img \<longleftrightarrow>
      (\<exists>i<length meta_props.
          try_url w (meta_url w article_url pg (meta_props ! i)) = Some img \<and>
          (\<forall>j<i. try_url w (meta_url w article_url pg (meta_props ! j)) = None)))"
proof -
  have a: "fetch_article_image w article_url = Some img"
    if "render w article_url = Some pg" "meta_stage w article_url pg = Some img"
    using that by (simp add: fetch_article_image_def)
  have b: "fetch_article_image (w\<lparr>render := (render w)(article_url := Some pg')\<rparr>) article_url = Some img"
    if "meta_stage w article_url pg = Some img" "metas pg' = metas pg" for pg'
    using that meta_stage_metas[OF that(2), where w = w and r = "(render w)(article_url := Some pg')"
        and article_url = article_url]
    by (simp add: fetch_article_image_def)
  have c: "meta_stage w article_url pg = Some img \<longleftrightarrow>
      (\<exists>i<length meta_props.
          try_url w (meta_url w article_url pg (meta_props ! i)) = Some img \<and>
          (\<forall>j<i. try_url w (meta_url w article_url pg (meta_props ! j)) = None))"
    unfolding meta_stage_def by (rule first_image_Some_iff)
  show ?thesis using a b c by blast
qed

lemma is_probably_logo_big: "\<not> is_probably_logo ''big.jpg''"
  by (simp add: is_probably_logo_def banned_keywords_def lower_def py_lower_def)

theorem meta_stage_priority_witness:
  "render demo_site ''http://news/a'' = Some demo_page
   \<and> meta_stage demo_site ''http://news/a'' demo_page = Some ''BIG''
   \<and> fetch_article_image demo_site ''http://news/a'' = Some ''BIG''
   \<and> jsonld_stage demo_site ''http://news/a'' demo_page = Inl AttributeError"
proof -
  have r: "render demo_site ''http://news/a'' = Some demo_page" by (simp add: demo_site_def)
  have v: "download_and_validate_image demo_site ''big.jpg'' = Some ''BIG''"
    by (simp add: download_and_validate_image_def demo_site_def demo_world_def)
  have u: "urljoin demo_site b x = Some x" for b x by (simp add: demo_site_def demo_world_def)
  have t: "try_url demo_site (Some ''big.jpg'') = Some ''BIG''"
    by (simp add: try_url_def is_probably_logo_big v)
  have mu: "meta_url demo_site ''http://news/a'' demo_page (''property'', ''og:image'') = Some ''big.jpg''"
    by (simp add: meta_url_def find_meta_def get_attr_def demo_page_def make_absolute_def u)
  have m: "meta_stage demo_site ''http://news/a'' demo_page = Some ''BIG''"
    by (simp add: meta_stage_def meta_props_def mu t)
  have j: "jsonld_stage demo_site ''http://news/a'' demo_page = Inl AttributeError"
    by (simp add: jsonld_stage_def ld_candidates_def image_field_def try_candidate_def demo_page_def)
  have "fetch_article_image demo_site ''http://news/a'' = Some ''BIG''"
    using meta_stage_priority[of demo_site "''http://news/a''" demo_page "''BIG''"] r m by blast
  then show ?thesis using r m j by blast
qed

lemma py_or_Some: "s \<noteq> [] \<Longrightarrow> py_or (Some s) b = Some s"
  by (simp add: py_or_def)

lemma py_or_chain_srcset:
  assumes "s \<noteq> []"
  shows "\<exists>t. t \<noteq> [] \<and> py_or a (py_or b (py_or c (Some s))) = Some t"
  using assms by (auto simp: py_or_def split: option.splits)

lemma py_or_chain_plain:
  assumes "d = None \<or> d = Some []"
  shows "(case py_or a (py_or b (py_or c d)) of None \<Rightarrow> None | Some s \<Rightarrow> if s = [] then None else Some s) =
         find (\<lambda>s. s \<noteq> []) (List.map_filter id [a, b, c])"
  using assms by (auto simp: py_or_def List.map_filter_def split: option.splits)

text \<open>
  Claim C4, as the code has it. An \<open><img>\<close> with a non-empty \<open>srcset\<close> whose first
  comma-separated entry holds a URL yields that URL, also when it carries a \<open>src\<close>; an
  \<open><img>\<close> with no \<open>srcset\<close> or an empty one yields the first non-empty of \<open>src\<close>,
  \<open>data-src\<close> and \<open>data-original\<close>, and is skipped when there is none.
\<close>

theorem img_source_choice:
  "(get_attr img ''srcset'' = Some srcset \<and> srcset \<noteq> [] \<and>
      py_split isspace (takeWhile (\<lambda>c. c \<noteq> CHR '','') srcset) = u # us \<longrightarrow>
      img_source img = Inr (Some u))
   \<and> (get_attr img ''srcset'' = None \<or> get_attr img ''srcset'' = Some [] \<longrightarrow>
      img_source img =
        Inr (find (\<lambda>s. s \<noteq> [])
               (List.map_filter (get_attr img) [''src'', ''data-src'', ''data-original''])))"
proof -
  have a: "img_source img = Inr (Some u)"
    if h: "get_attr img ''srcset'' = Some srcset" "srcset \<noteq> []"
      "py_split isspace (takeWhile (\<lambda>c. c \<noteq> CHR '','') srcset) = u # us"
  proof -
    obtain t where "t \<noteq> []"
      "py_or (get_attr img ''src'') (py_or (get_attr img ''data-src'')
         (py_or (get_attr img ''data-original'') (Some srcset))) = Some t"
      using py_or_chain_srcset[OF h(2)] by blast
    then show ?thesis using h by (simp add: img_source_def first_srcset_url_def)
  qed
  have b: "img_source img =
        Inr (find (\<lambda>s. s \<noteq> [])
               (List.map_filter (get_attr img) [''src'', ''data-src'', ''data-original'']))"
    if d: "get_attr img ''srcset'' = None \<or> get_attr img ''srcset'' = Some []"
  proof -
    let ?chain = "py_or (get_attr img ''src'') (py_or (get_attr img ''data-src'')
         (py_or (get_attr img ''data-original'') (get_attr img ''srcset'')))"
    have "img_source img = Inr (case ?chain of None \<Rightarrow> None | Some s \<Rightarrow> if s = [] then None else Some s)"
      using d by (auto simp: img_source_def split: option.splits)
    moreover have "List.map_filter (get_attr img) [''src'', ''data-src'', ''data-original''] =
        List.map_filter id [get_attr img ''src'', get_attr img ''data-src'', get_attr img ''data-original'']"
      by (simp add: List.map_filter_def)
    ultimately show ?thesis using py_or_chain_plain[OF d] by simp
  qed
  show ?thesis using a b by blast
qed

theorem img_source_choice_witness:
  "img_source demo_img = Inr (Some ''b.jpg'') \<and> img_source lazy_img = Inr (Some ''lazy.jpg'')"
proof -
  have s: "get_attr demo_img ''srcset'' = Some ''b.jpg 2x, c.jpg 3x''"
    by (simp add: demo_img_def get_attr_def)
  have p: "py_split isspace (takeWhile (\<lambda>c. c \<noteq> CHR '','') ''b.jpg 2x, c.jpg 3x'') = [''b.jpg'', ''2x'']"
    by (simp add: py_split_def isspace_def)
  have a: "img_source demo_img = Inr (Some ''b.jpg'')"
    using img_source_choice[of demo_img "''b.jpg 2x, c.jpg 3x''" "''b.jpg''" "[''2x'']"] s p by simp
  have n: "get_attr lazy_img ''srcset'' = None" by (simp add: lazy_img_def get_attr_def)
  have "img_source lazy_img =
        Inr (find (\<lambda>s. s \<noteq> [])
               (List.map_filter (get_attr lazy_img) [''src'', ''data-src'', ''data-original'']))"
    using img_source_choice[of lazy_img] n by blast
  then have b: "img_source lazy_img = Inr (Some ''lazy.jpg'')"
    by (simp add: lazy_img_def get_attr_def List.map_filter_def)
  show ?thesis using a b by blast
qed

theorem img_source_counterexample:
  "get_attr demo_img ''src'' = Some ''a.jpg'' \<and> img_source demo_img = Inr (Some ''b.jpg'')"
  by (simp add: demo_img_def img_source_def get_attr_def py_or_def first_srcset_url_def
      py_split_def isspace_def)

lemma take_eq_prefix: "take (length k) s = k \<longleftrightarrow> (\<exists>q. s = k @ q)"
  by (metis append_eq_conv_conj append_take_drop_id)

lemma is_substring_iff: "is_substring k s \<longleftrightarrow> (\<exists>p q. s = p @ k @ q)"
proof (induction s)
  case Nil
  then show ?case by auto
next
  case (Cons c cs)
  have "(\<exists>p q. c # cs = p @ k @ q) \<longleftrightarrow> (\<exists>q. c # cs = k @ q) \<or> (\<exists>p q. cs = p @ k @ q)"
  proof
    assume "\<exists>p q. c # cs = p @ k @ q"
    then obtain p q where pq: "c # cs = p @ k @ q" by blast
    show "(\<exists>q. c # cs = k @ q) \<or> (\<exists>p q. cs = p @ k @ q)"
    proof (cases p)
      case Nil
      then show ?thesis using pq by auto
    next
      case (Cons a p')
      then have "cs = p' @ k @ q" using pq by simp
      then show ?thesis by blast
    qed
  next
    assume "(\<exists>q. c # cs = k @ q) \<or> (\<exists>p q. cs = p @ k @ q)"
    then show "\<exists>p q. c # cs = p @ k @ q"
    proof
      assume "\<exists>q. c # cs = k @ q"
      then show ?thesis by (metis append_Nil)
    next
      assume "\<exists>p q. cs = p @ k @ q"
      then obtain p q where "cs = p @ k @ q" by blast
      then have "c # cs = (c # p) @ k @ q" by simp
      then show ?thesis by blast
    qed
  qed
  then show ?case using Cons.IH take_eq_prefix[of k "c # cs"] by simp
qed

lemma substring_across_space:
  assumes k: "k \<noteq> []" "CHR '' '' \<notin> set k"
  shows "is_substring k (a @ CHR '' '' # b) \<longleftrightarrow> is_substring k a \<or> is_substring k b"
proof
  assume "is_substring k (a @ CHR '' '' # b)"
  then obtain p q where pq: "a @ CHR '' '' # b = p @ k @ q" by (auto simp: is_substring_iff)
  then consider us where "a = p @ us" "us @ CHR '' '' # b = k @ q"
    | us where "a @ us = p" "CHR '' '' # b = us @ k @ q"
    by (auto simp: append_eq_append_conv2)
  then show "is_substring k a \<or> is_substring k b"
  proof cases
    case 1
    from 1(2) consider vs where "us = k @ vs" | vs where "us @ vs = k" "CHR '' '' # b = vs @ q"
      by (auto simp: append_eq_append_conv2)
    then show ?thesis
    proof cases
      case 1
      then have "a = p @ k @ vs" using \<open>a = p @ us\<close> by simp
      then show ?thesis by (auto simp: is_substring_iff)
    next
      case 2
      show ?thesis
      proof (cases vs)
        case Nil
        then have "a = p @ k @ []" using 2 \<open>a = p @ us\<close> by simp
        then show ?thesis unfolding is_substring_iff by blast
      next
        case (Cons v vs')
        then have "CHR '' '' \<in> set k" using 2 by auto
        then show ?thesis using k(2) by simp
      qed
    qed
  next
    case 2
    show ?thesis
    proof (cases us)
      case Nil
      then have "CHR '' '' # b = k @ q" using 2 by simp
      then have "CHR '' '' \<in> set k" using k(1) by (cases k) auto
      then show ?thesis using k(2) by simp
    next
      case (Cons u us')
      then have "b = us' @ k @ q" using 2 by simp
      then show ?thesis by (auto simp: is_substring_iff)
    qed
  qed
next
  assume "is_substring k a \<or> is_substring k b"
  then show "is_substring k (a @ CHR '' '' # b)"
  proof
    assume "is_substring k a"
    then obtain p q where "a = p @ k @ q" by (auto simp: is_substring_iff)
    then have "a @ CHR '' '' # b = p @ k @ (q @ CHR '' '' # b)" by simp
    then show ?thesis unfolding is_substring_iff by blast
  next
    assume "is_substring k b"
    then obtain p q where "b = p @ k @ q" by (auto simp: is_substring_iff)
    then have "a @ CHR '' '' # b = (a @ CHR '' '' # p) @ k @ q" by simp
    then show ?thesis unfolding is_substring_iff by blast
  qed
qed

lemma join_Cons: "join sep (x # xs) = (if xs = [] then x else x @ sep @ join sep xs)"
  by (cases xs) simp_all

lemma substring_join:
  assumes k: "k \<noteq> []" "CHR '' '' \<notin> set k"
  shows "is_substring k (join '' '' cs) \<longleftrightarrow> (\<exists>c\<in>set cs. is_substring k c)"
proof (induction cs)
  case Nil
  then show ?case using k(1) by simp
next
  case (Cons x xs)
  show ?case
  proof (cases "xs = []")
    case True
    then show ?thesis by simp
  next
    case False
    have "is_substring k (x @ CHR '' '' # join '' '' xs) \<longleftrightarrow>
          is_substring k x \<or> is_substring k (join '' '' xs)"
      by (rule substring_across_space[OF k])
    then show ?thesis using False Cons.IH by (simp add: join_Cons)
  qed
qed

lemma py_lower_space: "py_lower CHR '' '' = CHR '' ''"
  by (simp add: py_lower_def)

lemma lower_join: "lower (join '' '' cs) = join '' '' (map lower cs)"
proof (induction cs)
  case Nil
  then show ?case by (simp add: lower_def)
next
  case (Cons x xs)
  then show ?case by (simp add: join_Cons lower_def py_lower_space)
qed

lemma content_keywords_plain:
  "k \<in> set content_keywords \<Longrightarrow> k \<noteq> [] \<and> CHR '' '' \<notin> set k"
  by (auto simp: content_keywords_def)

lemma img_score_eq:
  "img_score img =
     (if \<exists>c\<in>set (case ancestors img of [] \<Rightarrow> []
                     | parent # up \<Rightarrow> (case classes parent of None \<Rightarrow> [] | Some cs \<Rightarrow> cs)).
           \<exists>k\<in>set content_keywords. is_substring k (lower c)
      then 2 else 0) +
     (if \<exists>k\<in>set prominence_keywords. k \<in> set (case classes img of None \<Rightarrow> [] | Some cs \<Rightarrow> cs)
      then 3 else 0)"
proof -
  let ?cs = "case ancestors img of [] \<Rightarrow> []
             | parent # up \<Rightarrow> (case classes parent of None \<Rightarrow> [] | Some cs \<Rightarrow> cs)"
  have pc: "parent_classes img = join '' '' ?cs"
    by (simp add: parent_classes_def split: list.splits)
  have "is_substring k (lower (parent_classes img)) \<longleftrightarrow> (\<exists>c\<in>set ?cs. is_substring k (lower c))"
    if "k \<in> set content_keywords" for k
    using substring_join[of k "map lower ?cs"] content_keywords_plain[OF that]
    unfolding pc lower_join by auto
  then have "list_ex (\<lambda>k. is_substring k (lower (parent_classes img))) content_keywords \<longleftrightarrow>
      (\<exists>c\<in>set ?cs. \<exists>k\<in>set content_keywords. is_substring k (lower c))"
    unfolding list_ex_iff by blast
  then show ?thesis unfolding img_score_def list_ex_iff by simp
qed

lemma sort_candidates_props:
  "sorted (map (\<lambda>t. - fst t) (sort_candidates cands))"
  "mset (sort_candidates cands) = mset cands"
  "filter (\<lambda>t. fst t = k) (sort_candidates cands) = filter (\<lambda>t. fst t = k) cands"
proof -
  show "sorted (map (\<lambda>t. - fst t) (sort_candidates cands))"
    by (simp add: sort_candidates_def)
  show "mset (sort_candidates cands) = mset cands"
    by (simp add: sort_candidates_def)
  have "filter (\<lambda>t. - fst t = - k) (sort_key (\<lambda>t. - fst t) cands) = filter (\<lambda>t. - fst t = - k) cands"
    by (rule sort_key_stable)
  then show "filter (\<lambda>t. fst t = k) (sort_candidates cands) = filter (\<lambda>t. fst t = k) cands"
    by (simp add: sort_candidates_def)
qed

lemma collect_candidates_scored:
  "case collect_candidates w article_url is of
     Inl e \<Rightarrow> True
   | Inr found \<Rightarrow> list_all (\<lambda>t. fst t = img_score (snd (snd t))) found"
proof (induction "is")
  case Nil
  then show ?case by simp
next
  case (Cons img rest)
  then show ?case by (auto split: sum.splits option.splits)
qed

text \<open>
  Claim C5, as the code has it. The score of an \<open><img>\<close> is 2 if a class name of its
  direct parent contains, in lower case, one of the content-area keywords as a
  substring, plus 3 if one of its own class names is one of the prominence keywords,
  and 0 when neither holds; every collected candidate carries that score; the
  candidates are ordered by descending score, the ordering is a permutation, and
  candidates of equal score keep their document order.
\<close>

theorem img_score_and_order:
  "img_score img =
     (if \<exists>c\<in>set (case ancestors img of [] \<Rightarrow> []
                     | parent # up \<Rightarrow> (case classes parent of None \<Rightarrow> [] | Some cs \<Rightarrow> cs)).
           \<exists>k\<in>set content_keywords. is_substring k (lower c)
      then 2 else 0) +
     (if \<exists>k\<in>set prominence_keywords. k \<in> set (case classes img of None \<Rightarrow> [] | Some cs \<Rightarrow> cs)
      then 3 else 0)
   \<and> (case collect_candidates w article_url is of
         Inl e \<Rightarrow> True
       | Inr found \<Rightarrow> list_all (\<lambda>t. fst t = img_score (snd (snd t))) found)
   \<and> sorted_wrt (\<lambda>a b. fst b \<le> fst a) (sort_candidates cands)
   \<and> mset (sort_candidates cands) = mset cands
   \<and> (\<forall>k. filter (\<lambda>t. fst t = k) (sort_candidates cands) = filter (\<lambda>t. fst t = k) cands)"
proof -
  have "sorted (map (\<lambda>t. - fst t) (sort_candidates cands))" by (rule sort_candidates_props)
  then have "sorted_wrt (\<lambda>a b. fst b \<le> fst a) (sort_candidates cands)"
    by (simp add: sorted_map)
  then show ?thesis
    using img_score_eq[of img] collect_candidates_scored[of w article_url "is"]
      sort_candidates_props(2,3)[where cands = cands]
    by simp
qed

theorem img_score_counterexample:
  "classes demo_img = Some [''hero-image''] \<and> is_substring ''hero'' ''hero-image''
   \<and> map classes (ancestors demo_img) = [None, Some [''article'']]
   \<and> img_score demo_img = 0"
  by (simp add: demo_img_def img_score_def parent_classes_def lower_def
      content_keywords_def prominence_keywords_def)

section \<open>Properties of the store and the pipeline\<close>











lemma process_article_cases:
  "process_article lib st (art, a) =
     (if KStr (news_link art) \<notin> posted_links st \<and> card_data a \<noteq> None \<and> send_telegram_photo_sync (photo a)
      then st\<lparr>posted_links := insert (KStr (news_link art)) (posted_links st),
              delivered := delivered st @ [news_link art],
              disk := save_posted_links lib (insert (KStr (news_link art)) (posted_links st))
                        (write_result a) (disk st)\<rparr>
      else st)"
  by (auto simp: process_article_def Let_def split: option.splits)

lemma process_article_invariant:
  assumes "posted_links st \<subseteq> KStr ` set (delivered st)"
  shows "posted_links (process_article lib st x) \<subseteq> KStr ` set (delivered (process_article lib st x))"
proof -
  obtain art a where x: "x = (art, a)" by (cases x)
  show ?thesis using assms unfolding x process_article_cases by auto
qed

lemma process_and_send_news_invariant:
  "posted_links st \<subseteq> KStr ` set (delivered st) \<Longrightarrow>
   posted_links (process_and_send_news lib news st) \<subseteq>
     KStr ` set (delivered (process_and_send_news lib news st))"
  unfolding process_and_send_news_def
proof (induction news arbitrary: st)
  case Nil
  then show ?case by simp
next
  case (Cons x news)
  have "posted_links (process_article lib st x) \<subseteq> KStr ` set (delivered (process_article lib st x))"
    by (rule process_article_invariant[OF Cons.prems])
  then show ?case using Cons.IH by simp
qed

text \<open>
  Claim C8. Processing an article for which \<open>sendPhoto\<close> does not report success
  (a refusal, a status other than 200, a body that cannot be read, or an exception)
  leaves the state as it was; when the processing of an article changes the set, the
  Publisher has reported success for it, the set has grown by that article's link
  alone, and the link is among the delivered ones; so that, over any run, every element
  of the set stays the link of an article that was delivered.
\<close>

theorem posted_only_after_success:
  "(\<not> send_telegram_photo_sync (photo a) \<longrightarrow> process_article lib st (art, a) = st)
   \<and> (posted_links (process_article lib st (art, a)) \<noteq> posted_links st \<longrightarrow>
        send_telegram_photo_sync (photo a) \<and>
        posted_links (process_article lib st (art, a)) = insert (KStr (news_link art)) (posted_links st) \<and>
        news_link art \<in> set (delivered (process_article lib st (art, a))))
   \<and> (posted_links st \<subseteq> KStr ` set (delivered st) \<longrightarrow>
        posted_links (process_and_send_news lib news st) \<subseteq>
          KStr ` set (delivered (process_and_send_news lib news st)))
   \<and> \<not> send_telegram_photo_sync Raises
   \<and> (status \<noteq> 200 \<longrightarrow> \<not> send_telegram_photo_sync (Reply status body))
   \<and> \<not> send_telegram_photo_sync (Reply status None)"
proof -
  have a: "process_article lib st (art, a) = st" if "\<not> send_telegram_photo_sync (photo a)"
    using that by (simp add: process_article_cases)
  have b: "send_telegram_photo_sync (photo a) \<and>
        posted_links (process_article lib st (art, a)) = insert (KStr (news_link art)) (posted_links st) \<and>
        news_link art \<in> set (delivered (process_article lib st (art, a)))"
    if "posted_links (process_article lib st (art, a)) \<noteq> posted_links st"
    using that by (auto simp: process_article_cases split: if_splits)
  have c: "\<not> send_telegram_photo_sync Raises"
    by (simp add: send_telegram_photo_sync_def telegram_ok_def)
  have d: "\<not> send_telegram_photo_sync (Reply status body)" if "status \<noteq> 200"
    using that by (auto simp: send_telegram_photo_sync_def telegram_ok_def split: option.splits json.splits)
  have e: "\<not> send_telegram_photo_sync (Reply status None)"
    by (simp add: send_telegram_photo_sync_def telegram_ok_def)
  show ?thesis using a b c d e process_and_send_news_invariant[of st lib news] by blast
qed

theorem posted_only_after_success_witness:
  "posted_links demo_state \<subseteq> KStr ` set (delivered demo_state)
   \<and> posted_links (process_and_send_news demo_lib demo_news demo_state) =
       {KStr ''https://n/1'', KStr ''https://n/3''}
   \<and> delivered (process_and_send_news demo_lib demo_news demo_state) = [''https://n/1'', ''https://n/3'']
   \<and> posted_links (process_and_send_news demo_lib demo_news demo_state) \<subseteq>
       KStr ` set (delivered (process_and_send_news demo_lib demo_news demo_state))
   \<and> process_article demo_lib demo_state (demo_news ! 1) = demo_state
   \<and> process_article demo_lib demo_state (demo_news ! 2) = demo_state"
proof -
  have inv: "posted_links demo_state \<subseteq> KStr ` set (delivered demo_state)"
    by (simp add: demo_state_def)
  have ok: "send_telegram_photo_sync ok_reply"
    by (simp add: send_telegram_photo_sync_def telegram_ok_def ok_reply_def)
  have no1: "\<not> send_telegram_photo_sync (Reply 429 (Some (JObj [(''ok'', JBool False)])))"
    by (simp add: send_telegram_photo_sync_def telegram_ok_def)
  have no2: "\<not> send_telegram_photo_sync Raises"
    by (simp add: send_telegram_photo_sync_def telegram_ok_def)
  have run: "posted_links (process_and_send_news demo_lib demo_news demo_state) =
       {KStr ''https://n/1'', KStr ''https://n/3''}
     \<and> delivered (process_and_send_news demo_lib demo_news demo_state) = [''https://n/1'', ''https://n/3'']"
    by (auto simp: process_and_send_news_def demo_news_def demo_state_def process_article_cases ok no1 no2)
  have sub: "posted_links (process_and_send_news demo_lib demo_news demo_state) \<subseteq>
       KStr ` set (delivered (process_and_send_news demo_lib demo_news demo_state))"
    using posted_only_after_success[of _ demo_lib demo_state _ demo_news] inv by blast
  have s1: "process_article demo_lib demo_state (demo_news ! 1) = demo_state"
    using posted_only_after_success[of
        "\<lparr>card_data = Some ''PNG2'', photo = Reply 429 (Some (JObj [(''ok'', JBool False)])),
          debug = ok_reply, write_result = Written\<rparr>"
        demo_lib demo_state "\<lparr>news_title = ''Refused'', news_link = ''https://n/2''\<rparr>"] no1
    by (simp add: demo_news_def)
  have s2: "process_article demo_lib demo_state (demo_news ! 2) = demo_state"
    using posted_only_after_success[of
        "\<lparr>card_data = Some ''PNG4'', photo = Raises, debug = ok_reply, write_result = Written\<rparr>"
        demo_lib demo_state "\<lparr>news_title = ''Down'', news_link = ''https://n/4''\<rparr>"] no2
    by (simp add: demo_news_def)
  show ?thesis using inv run sub s1 s2 by blast
qed

end
